theory Spec2Isabelle
  imports Main
begin

unbundle bit_operations_syntax

section \<open>Python values and exceptions\<close>

text \<open>
  The player agent of \<^verbatim>\<open>PlayerAI_3.py\<close> is embedded function by function. Python
  integers are unbounded, so they are \<^typ>\<open>int\<close>. An exception is a value: every
  function that can raise returns \<open>error + 'a\<close>, with \<open>Inl\<close> the exception.
  \<open>RecursionError\<close> is what CPython raises when the call stack is exhausted; the
  two search procedures take the number of stack frames still available as their first
  argument, so that a search that would recurse without end has a value too.
\<close>

datatype error = IndexError | TypeError | ValueError | ZeroDivisionError | RecursionError

text \<open>Python's \<^verbatim>\<open>xs[i]\<close>: a negative index counts from the end, and an index out
  of range raises.\<close>

definition getitem :: "'a list \<Rightarrow> int \<Rightarrow> error + 'a" where
  "getitem xs i =
     (if 0 \<le> i \<and> i < int (length xs) then Inr (xs ! nat i)
      else if i < 0 \<and> - int (length xs) \<le> i then Inr (xs ! nat (int (length xs) + i))
      else Inl IndexError)"

text \<open>Python's \<^verbatim>\<open>bin\<close>: the binary digits of the absolute value after the prefix
  \<^verbatim>\<open>0b\<close>, with a minus sign first for a negative number.\<close>

fun bin_digits :: "nat \<Rightarrow> string" where
  "bin_digits n =
     (if n < 2 then [if n = 0 then CHR ''0'' else CHR ''1'']
      else bin_digits (n div 2) @ [if n mod 2 = 0 then CHR ''0'' else CHR ''1''])"

declare bin_digits.simps [simp del]

definition bin :: "int \<Rightarrow> string" where
  "bin x = (if x < 0 then ''-0b'' @ bin_digits (nat (- x)) else ''0b'' @ bin_digits (nat x))"

text \<open>\<^verbatim>\<open>random.randint(a, b)\<close> returns an integer of the closed range from \<open>a\<close>
  to \<open>b\<close> and raises \<open>ValueError\<close> when the range is empty. The generator is not
  part of the program: the model takes the number it draws as the argument \<open>rnd\<close>, and
  reduces it into the range.\<close>

definition randint :: "int \<Rightarrow> int \<Rightarrow> int \<Rightarrow> error + int" where
  "randint a b rnd = (if b < a then Inl ValueError else Inr (a + rnd mod (b - a + 1)))"

section \<open>The grid\<close>

text \<open>
  Modelled from the spec: the board class \<^verbatim>\<open>Grid\<close> of \<^verbatim>\<open>Grid_3.py\<close> is not
  among the sources. The spec describes it as a square matrix of tile values (0 for an
  empty cell) of a fixed size \<open>N\<close>, with the operations below. The field names
  \<open>size\<close> and \<open>map\<close> are the ones \<^verbatim>\<open>PlayerAI_3.py\<close> reads.
\<close>

record grid =
  size_g :: nat
  map_g :: "int list list"

text \<open>Modelled from the spec: a board is a square matrix.\<close>

definition wf_grid :: "grid \<Rightarrow> bool" where
  "wf_grid g =
     (length (map_g g) = size_g g \<and> list_all (\<lambda>row. length row = size_g g) (map_g g))"

text \<open>Modelled from the spec: the four directions, and their vectors as
  (row, column) steps; \<^verbatim>\<open>PlayerAI_3.py\<close> reads a position as (row, column) and steps
  down a column with \<open>DOWN_VEC\<close> and along a row with \<open>RIGHT_VEC\<close>.\<close>

datatype direction = UP | DOWN | LEFT | RIGHT

text \<open>Modelled from the spec: the direction vectors \<open>UP_VEC\<close>, \<open>DOWN_VEC\<close>,
  \<open>LEFT_VEC\<close> and \<open>RIGHT_VEC\<close> of the grid module; \<open>vec0\<close> and \<open>vec1\<close> are
  the two components \<^verbatim>\<open>direction_vec[0]\<close> and \<^verbatim>\<open>direction_vec[1]\<close>.\<close>

datatype vec = UP_VEC | DOWN_VEC | LEFT_VEC | RIGHT_VEC

fun vec0 :: "vec \<Rightarrow> int" where
  "vec0 UP_VEC = - 1"
| "vec0 DOWN_VEC = 1"
| "vec0 LEFT_VEC = 0"
| "vec0 RIGHT_VEC = 0"

fun vec1 :: "vec \<Rightarrow> int" where
  "vec1 UP_VEC = 0"
| "vec1 DOWN_VEC = 0"
| "vec1 LEFT_VEC = - 1"
| "vec1 RIGHT_VEC = 1"

type_synonym pos = "int \<times> int"

text \<open>Modelled from the spec: \<open>crossBound\<close> is true iff the position is outside the
  grid.\<close>

definition crossBound :: "grid \<Rightarrow> pos \<Rightarrow> bool" where
  "crossBound g p =
     (fst p < 0 \<or> int (size_g g) \<le> fst p \<or> snd p < 0 \<or> int (size_g g) \<le> snd p)"

text \<open>Modelled from the spec: \<open>getCellValue\<close> gives the value of a cell, none out of
  bounds.\<close>

definition getCellValue :: "grid \<Rightarrow> pos \<Rightarrow> int option" where
  "getCellValue g p =
     (if crossBound g p then None else Some (map_g g ! nat (fst p) ! nat (snd p)))"

text \<open>Modelled from the spec: \<open>canInsert\<close> is true iff the cell is empty and in
  bounds.\<close>

definition canInsert :: "grid \<Rightarrow> pos \<Rightarrow> bool" where
  "canInsert g p = (getCellValue g p = Some 0)"

text \<open>The positions of the grid in the order of the generator
  \<^verbatim>\<open>((i, j) for i in range(grid.size) for j in range(grid.size))\<close>.\<close>

definition positions :: "grid \<Rightarrow> pos list" where
  "positions g =
     concat (map (\<lambda>i. map (\<lambda>j. (int i, int j)) [0..<size_g g]) [0..<size_g g])"

text \<open>Modelled from the spec: \<open>getAvailableCells\<close> lists the empty cells.\<close>

definition getAvailableCells :: "grid \<Rightarrow> pos list" where
  "getAvailableCells g = filter (canInsert g) (positions g)"

text \<open>Modelled from the spec: \<open>getMaxTile\<close> is the maximum tile on the board.\<close>

definition getMaxTile :: "grid \<Rightarrow> int" where
  "getMaxTile g = fold max (concat (map_g g)) 0"

text \<open>Modelled from the spec: \<open>clone\<close> is an independent copy. Grids are values
  here, so the copy is the grid itself; the store model below tells the two objects
  apart.\<close>

definition clone :: "grid \<Rightarrow> grid" where
  "clone g = g"

text \<open>Modelled from the spec: \<open>setCellValue\<close> writes one cell.\<close>

definition setCellValue :: "grid \<Rightarrow> pos \<Rightarrow> int \<Rightarrow> grid" where
  "setCellValue g p v =
     g\<lparr>map_g := (map_g g)[nat (fst p) := (map_g g ! nat (fst p))[nat (snd p) := v]]\<rparr>"

text \<open>Modelled from the spec: a shift slides all tiles in one direction and merges
  adjacent equal values; each tile takes part in one merge at most.\<close>

fun merge :: "int list \<Rightarrow> int list" where
  "merge (x # y # xs) = (if x = y then (2 * x) # merge xs else x # merge (y # xs))"
| "merge xs = xs"

text \<open>Modelled from the spec: one line of \<open>n\<close> cells after a shift towards its
  head: the tiles slide together, equal neighbours merge, zeros fill the rest.\<close>

definition slide :: "nat \<Rightarrow> int list \<Rightarrow> int list" where
  "slide n cells =
     (let merged = merge (filter (\<lambda>v. v \<noteq> 0) cells)
      in merged @ replicate (n - length merged) 0)"

text \<open>Modelled from the spec: a column of the matrix, and the matrix built from its
  rows or from its columns.\<close>

definition column :: "grid \<Rightarrow> nat \<Rightarrow> int list" where
  "column g j = map (\<lambda>row. row ! j) (map_g g)"

definition of_rows :: "nat \<Rightarrow> (nat \<Rightarrow> int list) \<Rightarrow> grid" where
  "of_rows n f = \<lparr>size_g = n, map_g = map (\<lambda>i. map (\<lambda>j. f i ! j) [0..<n]) [0..<n]\<rparr>"

definition of_columns :: "nat \<Rightarrow> (nat \<Rightarrow> int list) \<Rightarrow> grid" where
  "of_columns n f = \<lparr>size_g = n, map_g = map (\<lambda>i. map (\<lambda>j. f j ! i) [0..<n]) [0..<n]\<rparr>"

text \<open>Modelled from the spec: \<open>move\<close> shifts every row (left, right) or every column
  (up, down) towards the named side.\<close>

fun move :: "grid \<Rightarrow> direction \<Rightarrow> grid" where
  "move g LEFT = of_rows (size_g g) (\<lambda>i. slide (size_g g) (map_g g ! i))"
| "move g RIGHT = of_rows (size_g g) (\<lambda>i. rev (slide (size_g g) (rev (map_g g ! i))))"
| "move g UP = of_columns (size_g g) (\<lambda>j. slide (size_g g) (column g j))"
| "move g DOWN = of_columns (size_g g) (\<lambda>j. rev (slide (size_g g) (rev (column g j))))"

text \<open>Modelled from the spec: \<open>getAvailableMoves\<close> lists the legal shifts, those that
  change the board, in the order of the direction indices.\<close>

definition getAvailableMoves :: "grid \<Rightarrow> direction list" where
  "getAvailableMoves g = filter (\<lambda>d. move g d \<noteq> g) [UP, DOWN, LEFT, RIGHT]"

section \<open>The position evaluator\<close>

text \<open>\<^verbatim>\<open>grid.map[i][j]\<close>, read directly from the field.\<close>

definition map_at :: "grid \<Rightarrow> int \<Rightarrow> int \<Rightarrow> error + int" where
  "map_at g i j = (case getitem (map_g g) i of Inl e \<Rightarrow> Inl e | Inr row \<Rightarrow> getitem row j)"

text \<open>\<^verbatim>\<open>__log2\<close>: the number of characters \<open>1\<close> in
  \<^verbatim>\<open>bin(value ^ (value - 1))\<close>, and 0 for the value 0.\<close>

definition log2 :: "int \<Rightarrow> int" where
  "log2 v = (if v \<noteq> 0 then int (count_list (bin (v XOR (v - 1))) (CHR ''1'')) else 0)"

text \<open>\<^verbatim>\<open>__find_farthest_pos\<close>: the loop steps while the next position is inside
  the grid and empty. The direction is one of the four vectors of the grid module, so
  every step moves towards an edge.\<close>

function find_farthest_pos_loop :: "grid \<Rightarrow> pos \<Rightarrow> vec \<Rightarrow> pos" where
  "find_farthest_pos_loop g next_pos direction_vec =
     (if \<not> crossBound g next_pos \<and> canInsert g next_pos
      then find_farthest_pos_loop g
             (fst next_pos + vec0 direction_vec, snd next_pos + vec1 direction_vec) direction_vec
      else next_pos)"
  by pat_completeness auto
termination
  by (relation "measure (\<lambda>(g, p, v). case v of
          UP_VEC \<Rightarrow> nat (fst p + 1)
        | DOWN_VEC \<Rightarrow> nat (int (size_g g) - fst p)
        | LEFT_VEC \<Rightarrow> nat (snd p + 1)
        | RIGHT_VEC \<Rightarrow> nat (int (size_g g) - snd p))")
     (auto simp: crossBound_def split: vec.splits)

declare find_farthest_pos_loop.simps [simp del]

definition find_farthest_pos :: "grid \<Rightarrow> pos \<Rightarrow> vec \<Rightarrow> pos" where
  "find_farthest_pos g start_pos direction_vec =
     find_farthest_pos_loop g
       (fst start_pos + vec0 direction_vec, snd start_pos + vec1 direction_vec) direction_vec"

text \<open>\<^verbatim>\<open>__smoothness\<close>: the inner loop over the two scan directions, then the
  loop over the positions.\<close>

fun smoothness_dirs :: "grid \<Rightarrow> pos \<Rightarrow> int \<Rightarrow> vec list \<Rightarrow> int \<Rightarrow> int" where
  "smoothness_dirs g start_pos start_value [] smoothness = smoothness"
| "smoothness_dirs g start_pos start_value (direction_vec # vs) smoothness =
     (let terminal_pos = find_farthest_pos g start_pos direction_vec in
      case getCellValue g terminal_pos of
        None \<Rightarrow> smoothness_dirs g start_pos start_value vs smoothness
      | Some terminal_value \<Rightarrow>
          smoothness_dirs g start_pos start_value vs
            (smoothness - \<bar>start_value - log2 terminal_value\<bar>))"

fun smoothness_loop :: "grid \<Rightarrow> pos list \<Rightarrow> int \<Rightarrow> error + int" where
  "smoothness_loop g [] smoothness = Inr smoothness"
| "smoothness_loop g (start_pos # ps) smoothness =
     (if \<not> canInsert g start_pos then
        (case map_at g (fst start_pos) (snd start_pos) of
           Inl e \<Rightarrow> Inl e
         | Inr cell \<Rightarrow>
             smoothness_loop g ps
               (smoothness_dirs g start_pos (log2 cell) [DOWN_VEC, RIGHT_VEC] smoothness))
      else smoothness_loop g ps smoothness)"

definition smoothness :: "grid \<Rightarrow> error + int" where
  "smoothness g = smoothness_loop g (positions g) 0"

text \<open>\<^verbatim>\<open>__monotonicity\<close>. The dictionary of the four accumulators is a function
  on the directions. In both \<^verbatim>\<open>while\<close> loops \<open>next_row\<close> (\<open>next_col\<close>) equals
  \<open>current_row\<close> (\<open>current_col\<close>) whenever the condition is tested: both start at 0
  and the body ends with \<^verbatim>\<open>current_row = next_row\<close>. The loop state is therefore
  the current index and the dictionary.\<close>

lemma find_farthest_pos_loop_fst:
  "0 \<le> vec0 v \<Longrightarrow> fst p \<le> fst (find_farthest_pos_loop g p v)"
proof (induction g p v rule: find_farthest_pos_loop.induct)
  case (1 g next_pos direction_vec)
  show ?case
  proof (cases "\<not> crossBound g next_pos \<and> canInsert g next_pos")
    case True
    from "1.IH" [OF True "1.prems"] "1.prems" True show ?thesis
      by (subst find_farthest_pos_loop.simps) simp
  next
    case False
    then show ?thesis by (subst find_farthest_pos_loop.simps) auto
  qed
qed

lemma find_farthest_pos_loop_snd:
  "0 \<le> vec1 v \<Longrightarrow> snd p \<le> snd (find_farthest_pos_loop g p v)"
proof (induction g p v rule: find_farthest_pos_loop.induct)
  case (1 g next_pos direction_vec)
  show ?case
  proof (cases "\<not> crossBound g next_pos \<and> canInsert g next_pos")
    case True
    from "1.IH" [OF True "1.prems"] "1.prems" True show ?thesis
      by (subst find_farthest_pos_loop.simps) simp
  next
    case False
    then show ?thesis by (subst find_farthest_pos_loop.simps) auto
  qed
qed

lemma find_farthest_pos_down: "r < fst (find_farthest_pos g (r, c) DOWN_VEC)"
  using find_farthest_pos_loop_fst [of DOWN_VEC "(r + 1, c)" g] by (simp add: find_farthest_pos_def)

lemma find_farthest_pos_right: "c < snd (find_farthest_pos g (r, c) RIGHT_VEC)"
  using find_farthest_pos_loop_snd [of RIGHT_VEC "(r, c + 1)" g] by (simp add: find_farthest_pos_def)

function monotonicity_col_loop ::
  "grid \<Rightarrow> int \<Rightarrow> int \<Rightarrow> (direction \<Rightarrow> int) \<Rightarrow> error + (direction \<Rightarrow> int)" where
  "monotonicity_col_loop g col current_row monotonicity =
     (if current_row < int (size_g g) then
        (let next_row = fst (find_farthest_pos g (current_row, col) DOWN_VEC) in
         case map_at g current_row col of
           Inl e \<Rightarrow> Inl e
         | Inr current_cell \<Rightarrow>
            (case map_at g (if next_row = int (size_g g) then int (size_g g) - 1 else next_row) col of
               Inl e \<Rightarrow> Inl e
             | Inr next_cell \<Rightarrow>
                (let current_value = log2 current_cell; next_value = log2 next_cell in
                 monotonicity_col_loop g col next_row
                   (if current_value < next_value
                    then monotonicity(DOWN := monotonicity DOWN + (current_value - next_value))
                    else monotonicity(UP := monotonicity UP + (next_value - current_value))))))
      else Inr monotonicity)"
  by pat_completeness auto
termination
  by (relation "measure (\<lambda>(g, col, current_row, m). nat (int (size_g g) - current_row))")
     (use find_farthest_pos_down in \<open>auto simp: nat_less_iff\<close>)

declare monotonicity_col_loop.simps [simp del]

function monotonicity_row_loop ::
  "grid \<Rightarrow> int \<Rightarrow> int \<Rightarrow> (direction \<Rightarrow> int) \<Rightarrow> error + (direction \<Rightarrow> int)" where
  "monotonicity_row_loop g row current_col monotonicity =
     (if current_col < int (size_g g) then
        (let next_col = snd (find_farthest_pos g (row, current_col) RIGHT_VEC) in
         case map_at g row current_col of
           Inl e \<Rightarrow> Inl e
         | Inr current_cell \<Rightarrow>
            (case map_at g row (if next_col = int (size_g g) then int (size_g g) - 1 else next_col) of
               Inl e \<Rightarrow> Inl e
             | Inr next_cell \<Rightarrow>
                (let current_value = log2 current_cell; next_value = log2 next_cell in
                 monotonicity_row_loop g row next_col
                   (if current_value < next_value
                    then monotonicity(RIGHT := monotonicity RIGHT + (current_value - next_value))
                    else monotonicity(LEFT := monotonicity LEFT + (next_value - current_value))))))
      else Inr monotonicity)"
  by pat_completeness auto
termination
  by (relation "measure (\<lambda>(g, row, current_col, m). nat (int (size_g g) - current_col))")
     (use find_farthest_pos_right in \<open>auto simp: nat_less_iff\<close>)

declare monotonicity_row_loop.simps [simp del]

fun monotonicity_cols ::
  "grid \<Rightarrow> int list \<Rightarrow> (direction \<Rightarrow> int) \<Rightarrow> error + (direction \<Rightarrow> int)" where
  "monotonicity_cols g [] monotonicity = Inr monotonicity"
| "monotonicity_cols g (col # cols) monotonicity =
     (case monotonicity_col_loop g col 0 monotonicity of
        Inl e \<Rightarrow> Inl e
      | Inr monotonicity' \<Rightarrow> monotonicity_cols g cols monotonicity')"

fun monotonicity_rows ::
  "grid \<Rightarrow> int list \<Rightarrow> (direction \<Rightarrow> int) \<Rightarrow> error + (direction \<Rightarrow> int)" where
  "monotonicity_rows g [] monotonicity = Inr monotonicity"
| "monotonicity_rows g (row # rows) monotonicity =
     (case monotonicity_row_loop g row 0 monotonicity of
        Inl e \<Rightarrow> Inl e
      | Inr monotonicity' \<Rightarrow> monotonicity_rows g rows monotonicity')"

definition range_g :: "grid \<Rightarrow> int list" where
  "range_g g = map int [0..<size_g g]"

definition monotonicity :: "grid \<Rightarrow> error + int" where
  "monotonicity g =
     (case monotonicity_cols g (range_g g) (\<lambda>d. 0) of
        Inl e \<Rightarrow> Inl e
      | Inr m1 \<Rightarrow>
         (case monotonicity_rows g (range_g g) m1 of
            Inl e \<Rightarrow> Inl e
          | Inr m2 \<Rightarrow> Inr (max (m2 UP) (m2 DOWN) + max (m2 LEFT) (m2 RIGHT))))"

text \<open>\<^verbatim>\<open>__eval\<close>. The dictionary \<open>tile_stats\<close> has the two keys \<open>max\<close> and
  \<open>empty_count\<close>. Comparing a tile value that is none with a number raises
  \<open>TypeError\<close>.\<close>

record tile_stats =
  max_stat :: int
  empty_count :: int

fun eval_loop :: "grid \<Rightarrow> pos list \<Rightarrow> tile_stats \<Rightarrow> error + tile_stats" where
  "eval_loop g [] stats = Inr stats"
| "eval_loop g (p # ps) stats =
     (case getCellValue g p of
        None \<Rightarrow> Inl TypeError
      | Some tile_value \<Rightarrow>
          (let stats1 = (if max_stat stats < tile_value
                         then stats\<lparr>max_stat := tile_value\<rparr> else stats);
               stats2 = (if tile_value = 0
                         then stats1\<lparr>empty_count := empty_count stats1 + 1\<rparr> else stats1)
           in eval_loop g ps stats2))"

definition SMOOTH_WEIGHT :: int where "SMOOTH_WEIGHT = 10"
definition MONO_WEIGHT :: int where "MONO_WEIGHT = 20"
definition EMPTY_WEIGHT :: int where "EMPTY_WEIGHT = 80"
definition MAX_WEIGHT :: int where "MAX_WEIGHT = 10"

definition eval :: "grid \<Rightarrow> error + int" where
  "eval g =
     (case eval_loop g (positions g) \<lparr>max_stat = 0, empty_count = 0\<rparr> of
        Inl e \<Rightarrow> Inl e
      | Inr stats \<Rightarrow>
         (case smoothness g of
            Inl e \<Rightarrow> Inl e
          | Inr s \<Rightarrow>
             (case monotonicity g of
                Inl e \<Rightarrow> Inl e
              | Inr m \<Rightarrow>
                  Inr (SMOOTH_WEIGHT * s + MONO_WEIGHT * m
                       + EMPTY_WEIGHT * empty_count stats + MAX_WEIGHT * max_stat stats))))"

section \<open>The search engine\<close>

definition TARGET_TILE_VALUE :: int where "TARGET_TILE_VALUE = 2048"

text \<open>The dictionary \<open>TILE_VALUE_PROBA\<close> in the order of its items.\<close>

definition TILE_VALUE_PROBA :: "(int \<times> int) list" where "TILE_VALUE_PROBA = [(2, 9)]"

definition MAX_DEPTH :: int where "MAX_DEPTH = 4"

text \<open>\<^verbatim>\<open>sys.maxsize\<close> of a 64-bit CPython.\<close>

definition MAX_UTILITY :: int where "MAX_UTILITY = 9223372036854775807"

definition is_terminal_state :: "grid \<Rightarrow> bool" where
  "is_terminal_state g = (getMaxTile g = TARGET_TILE_VALUE)"

text \<open>
  \<^verbatim>\<open>__maximize\<close> and \<^verbatim>\<open>__minimize\<close>. The first argument is the number of stack
  frames left: a call with none left raises \<open>RecursionError\<close>, and the calls made from a
  frame have one frame fewer. Each \<^verbatim>\<open>for\<close> loop is a function on the remaining
  items that carries the variables the loop assigns; \<^verbatim>\<open>break\<close> returns at once.
  \<open>expected_loop\<close> is the inner loop of \<^verbatim>\<open>__minimize\<close> over the items of
  \<open>TILE_VALUE_PROBA\<close>; it writes every value into the same copy of the grid.
\<close>

function maximize :: "nat \<Rightarrow> grid \<Rightarrow> int \<Rightarrow> int \<Rightarrow> int \<Rightarrow> error + (direction option \<times> int)"
  and maximize_loop :: "nat \<Rightarrow> grid \<Rightarrow> int \<Rightarrow> direction list \<Rightarrow> direction option \<times> int
      \<Rightarrow> int \<Rightarrow> int \<Rightarrow> error + (direction option \<times> int)"
  and minimize :: "nat \<Rightarrow> grid \<Rightarrow> int \<Rightarrow> int \<Rightarrow> int \<Rightarrow> error + (pos option \<times> int)"
  and minimize_loop :: "nat \<Rightarrow> grid \<Rightarrow> int \<Rightarrow> pos list \<Rightarrow> pos option \<times> int
      \<Rightarrow> int \<Rightarrow> int \<Rightarrow> error + (pos option \<times> int)"
  and expected_loop :: "nat \<Rightarrow> grid \<Rightarrow> int \<Rightarrow> pos \<Rightarrow> (int \<times> int) list \<Rightarrow> int \<times> int
      \<Rightarrow> int \<Rightarrow> int \<Rightarrow> error + (int \<times> int)"
where
  "maximize 0 g depth alpha beta = Inl RecursionError"
| "maximize (Suc n) g depth alpha beta =
     (if depth = MAX_DEPTH \<or> is_terminal_state g then
        (case eval g of Inl e \<Rightarrow> Inl e | Inr u \<Rightarrow> Inr (None, u))
      else maximize_loop n g depth (getAvailableMoves g) (None, - MAX_UTILITY) alpha beta)"
| "maximize_loop n g depth [] (max_move, max_utility) alpha beta = Inr (max_move, max_utility)"
| "maximize_loop n g depth (m # ms) (max_move, max_utility) alpha beta =
     (let grid_copy = move (clone g) m in
      case minimize n grid_copy (depth + 1) alpha beta of
        Inl e \<Rightarrow> Inl e
      | Inr (_, utility) \<Rightarrow>
          (let (max_move', max_utility') =
                 (if utility > max_utility then (Some m, utility) else (max_move, max_utility))
           in if utility \<ge> beta then Inr (max_move', max_utility')
              else maximize_loop n g depth ms (max_move', max_utility')
                     (if utility > alpha then utility else alpha) beta))"
| "minimize 0 g depth alpha beta = Inl RecursionError"
| "minimize (Suc n) g depth alpha beta =
     (if depth = MAX_DEPTH \<or> is_terminal_state g then
        (case eval g of Inl e \<Rightarrow> Inl e | Inr u \<Rightarrow> Inr (None, u))
      else minimize_loop n g depth (getAvailableCells g) (None, MAX_UTILITY) alpha beta)"
| "minimize_loop n g depth [] (min_move, min_utility) alpha beta = Inr (min_move, min_utility)"
| "minimize_loop n g depth (m # ms) (min_move, min_utility) alpha beta =
     (let grid_copy = clone g in
      case expected_loop n grid_copy depth m TILE_VALUE_PROBA (0, 0) alpha beta of
        Inl e \<Rightarrow> Inl e
      | Inr (utility0, freq) \<Rightarrow>
          if freq = 0 then Inl ZeroDivisionError
          else
            (let utility = utility0 div freq;
                 (min_move', min_utility') =
                   (if utility < min_utility then (Some m, utility) else (min_move, min_utility))
             in if utility \<le> alpha then Inr (min_move', min_utility')
                else minimize_loop n g depth ms (min_move', min_utility') alpha
                       (if utility < beta then utility else beta)))"
| "expected_loop n grid_copy depth m [] (utility, freq) alpha beta = Inr (utility, freq)"
| "expected_loop n grid_copy depth m ((tile, proba) # items) (utility, freq) alpha beta =
     (let grid_copy' = setCellValue grid_copy m tile in
      case maximize n grid_copy' (depth + 1) alpha beta of
        Inl e \<Rightarrow> Inl e
      | Inr (_, cond_utility) \<Rightarrow>
          expected_loop n grid_copy' depth m items
            (utility + proba * cond_utility, freq + proba) alpha beta)"
  by pat_completeness auto
termination
  by (relation "inv_image (less_than <*lex*> less_than)
        (\<lambda>x. case x of
           Inl (Inl (n, g, d, a, b)) \<Rightarrow> (3 * n, 0)
         | Inl (Inr (n, g, d, ms, best, a, b)) \<Rightarrow> (3 * n + 2, length ms)
         | Inr (Inl (n, g, d, a, b)) \<Rightarrow> (3 * n, 0)
         | Inr (Inr (Inl (n, g, d, ms, best, a, b))) \<Rightarrow> (3 * n + 2, length ms)
         | Inr (Inr (Inr (n, gc, d, m, items, acc, a, b))) \<Rightarrow> (3 * n + 1, length items))")
     auto

text \<open>\<^verbatim>\<open>getMove\<close>. \<open>rnd\<close> is the number the random generator draws if
  \<^verbatim>\<open>randint\<close> is called.\<close>

definition getMove :: "nat \<Rightarrow> int \<Rightarrow> grid \<Rightarrow> error + direction" where
  "getMove n rnd g =
     (case maximize n g 0 (- MAX_UTILITY) MAX_UTILITY of
        Inl e \<Rightarrow> Inl e
      | Inr (mv, _) \<Rightarrow>
         (case mv of
            Some m \<Rightarrow> Inr m
          | None \<Rightarrow>
             (let moves = getAvailableMoves g in
              case randint 0 (int (length moves) - 1) rnd of
                Inl e \<Rightarrow> Inl e
              | Inr i \<Rightarrow> getitem moves i)))"

section \<open>The search on a store of grid objects\<close>

text \<open>
  In Python a grid is an object, and \<open>move\<close> and \<open>setCellValue\<close> change it in
  place. To state which objects a call changes, the search is embedded a second time on
  an explicit store: the list of the grid objects allocated so far, an object's address
  being its index. Modelled from the spec: \<open>clone\<close> allocates an independent copy,
  \<open>move\<close> and \<open>setCellValue\<close> overwrite the object at the address they are called
  on. Every function takes the store and returns it with its result, also when it
  raises.
\<close>

type_synonym addr = nat

type_synonym store = "grid list"

text \<open>Modelled from the spec: \<open>clone\<close> on the store allocates a new object with the
  contents of the cloned one and returns its address.\<close>

definition clone_s :: "store \<Rightarrow> addr \<Rightarrow> store \<times> addr" where
  "clone_s st a = (st @ [st ! a], length st)"

text \<open>Modelled from the spec: \<open>move\<close> on the store overwrites the object at the
  address with the shifted grid.\<close>

definition move_s :: "store \<Rightarrow> addr \<Rightarrow> direction \<Rightarrow> store" where
  "move_s st a m = st[a := move (st ! a) m]"

text \<open>Modelled from the spec: \<open>setCellValue\<close> on the store overwrites the object at
  the address with the grid that has the cell written.\<close>

definition setCellValue_s :: "store \<Rightarrow> addr \<Rightarrow> pos \<Rightarrow> int \<Rightarrow> store" where
  "setCellValue_s st a p v = st[a := setCellValue (st ! a) p v]"

text \<open>\<^verbatim>\<open>__maximize\<close>, \<^verbatim>\<open>__minimize\<close> and \<^verbatim>\<open>getMove\<close> once more, statement
  by statement, with the argument \<open>grid\<close> an address.\<close>

function maximize_s ::
    "nat \<Rightarrow> store \<Rightarrow> addr \<Rightarrow> int \<Rightarrow> int \<Rightarrow> int \<Rightarrow> (error + (direction option \<times> int)) \<times> store"
  and maximize_loop_s ::
    "nat \<Rightarrow> store \<Rightarrow> addr \<Rightarrow> int \<Rightarrow> direction list \<Rightarrow> direction option \<times> int
      \<Rightarrow> int \<Rightarrow> int \<Rightarrow> (error + (direction option \<times> int)) \<times> store"
  and minimize_s ::
    "nat \<Rightarrow> store \<Rightarrow> addr \<Rightarrow> int \<Rightarrow> int \<Rightarrow> int \<Rightarrow> (error + (pos option \<times> int)) \<times> store"
  and minimize_loop_s ::
    "nat \<Rightarrow> store \<Rightarrow> addr \<Rightarrow> int \<Rightarrow> pos list \<Rightarrow> pos option \<times> int
      \<Rightarrow> int \<Rightarrow> int \<Rightarrow> (error + (pos option \<times> int)) \<times> store"
  and expected_loop_s ::
    "nat \<Rightarrow> store \<Rightarrow> addr \<Rightarrow> int \<Rightarrow> pos \<Rightarrow> (int \<times> int) list \<Rightarrow> int \<times> int
      \<Rightarrow> int \<Rightarrow> int \<Rightarrow> (error + (int \<times> int)) \<times> store"
where
  "maximize_s 0 st grid depth alpha beta = (Inl RecursionError, st)"
| "maximize_s (Suc n) st grid depth alpha beta =
     (if depth = MAX_DEPTH \<or> is_terminal_state (st ! grid) then
        (case eval (st ! grid) of Inl e \<Rightarrow> (Inl e, st) | Inr u \<Rightarrow> (Inr (None, u), st))
      else maximize_loop_s n st grid depth (getAvailableMoves (st ! grid))
             (None, - MAX_UTILITY) alpha beta)"
| "maximize_loop_s n st grid depth [] (max_move, max_utility) alpha beta =
     (Inr (max_move, max_utility), st)"
| "maximize_loop_s n st grid depth (m # ms) (max_move, max_utility) alpha beta =
     (let (st1, grid_copy) = clone_s st grid;
          st2 = move_s st1 grid_copy m
      in case minimize_s n st2 grid_copy (depth + 1) alpha beta of
           (Inl e, st3) \<Rightarrow> (Inl e, st3)
         | (Inr (_, utility), st3) \<Rightarrow>
             (let (max_move', max_utility') =
                    (if utility > max_utility then (Some m, utility)
                     else (max_move, max_utility))
              in if utility \<ge> beta then (Inr (max_move', max_utility'), st3)
                 else maximize_loop_s n st3 grid depth ms (max_move', max_utility')
                        (if utility > alpha then utility else alpha) beta))"
| "minimize_s 0 st grid depth alpha beta = (Inl RecursionError, st)"
| "minimize_s (Suc n) st grid depth alpha beta =
     (if depth = MAX_DEPTH \<or> is_terminal_state (st ! grid) then
        (case eval (st ! grid) of Inl e \<Rightarrow> (Inl e, st) | Inr u \<Rightarrow> (Inr (None, u), st))
      else minimize_loop_s n st grid depth (getAvailableCells (st ! grid))
             (None, MAX_UTILITY) alpha beta)"
| "minimize_loop_s n st grid depth [] (min_move, min_utility) alpha beta =
     (Inr (min_move, min_utility), st)"
| "minimize_loop_s n st grid depth (m # ms) (min_move, min_utility) alpha beta =
     (let (st1, grid_copy) = clone_s st grid
      in case expected_loop_s n st1 grid_copy depth m TILE_VALUE_PROBA (0, 0) alpha beta of
           (Inl e, st2) \<Rightarrow> (Inl e, st2)
         | (Inr (utility0, freq), st2) \<Rightarrow>
             if freq = 0 then (Inl ZeroDivisionError, st2)
             else
               (let utility = utility0 div freq;
                    (min_move', min_utility') =
                      (if utility < min_utility then (Some m, utility)
                       else (min_move, min_utility))
                in if utility \<le> alpha then (Inr (min_move', min_utility'), st2)
                   else minimize_loop_s n st2 grid depth ms (min_move', min_utility') alpha
                          (if utility < beta then utility else beta)))"
| "expected_loop_s n st grid_copy depth m [] (utility, freq) alpha beta =
     (Inr (utility, freq), st)"
| "expected_loop_s n st grid_copy depth m ((tile, proba) # items) (utility, freq) alpha beta =
     (let st1 = setCellValue_s st grid_copy m tile
      in case maximize_s n st1 grid_copy (depth + 1) alpha beta of
           (Inl e, st2) \<Rightarrow> (Inl e, st2)
         | (Inr (_, cond_utility), st2) \<Rightarrow>
             expected_loop_s n st2 grid_copy depth m items
               (utility + proba * cond_utility, freq + proba) alpha beta)"
  by pat_completeness auto
termination
  by (relation "inv_image (less_than <*lex*> less_than)
        (\<lambda>x. case x of
           Inl (Inl (n, st, g, d, a, b)) \<Rightarrow> (3 * n, 0)
         | Inl (Inr (n, st, g, d, ms, best, a, b)) \<Rightarrow> (3 * n + 2, length ms)
         | Inr (Inl (n, st, g, d, a, b)) \<Rightarrow> (3 * n, 0)
         | Inr (Inr (Inl (n, st, g, d, ms, best, a, b))) \<Rightarrow> (3 * n + 2, length ms)
         | Inr (Inr (Inr (n, st, gc, d, m, items, acc, a, b))) \<Rightarrow> (3 * n + 1, length items))")
     auto

definition getMove_s :: "nat \<Rightarrow> int \<Rightarrow> store \<Rightarrow> addr \<Rightarrow> (error + direction) \<times> store" where
  "getMove_s n rnd st grid =
     (case maximize_s n st grid 0 (- MAX_UTILITY) MAX_UTILITY of
        (Inl e, st') \<Rightarrow> (Inl e, st')
      | (Inr (mv, _), st') \<Rightarrow>
         (case mv of
            Some m \<Rightarrow> (Inr m, st')
          | None \<Rightarrow>
             (let moves = getAvailableMoves (st' ! grid) in
              case randint 0 (int (length moves) - 1) rnd of
                Inl e \<Rightarrow> (Inl e, st')
              | Inr i \<Rightarrow> (getitem moves i, st'))))"

section \<open>The quantities of the specification\<close>

text \<open>The value of the cell at a position inside the grid.\<close>

definition cell :: "grid \<Rightarrow> pos \<Rightarrow> int" where
  "cell g p = map_g g ! nat (fst p) ! nat (snd p)"

text \<open>The two counts of the utility formula, in the words of the specification: the
  number of zero-valued cells, and the maximum raw tile value (tile values are not
  negative, so the maximum of an empty board is 0).\<close>

definition emptyCount :: "grid \<Rightarrow> int" where
  "emptyCount g = int (count_list (concat (map_g g)) 0)"

definition maxTile :: "grid \<Rightarrow> int" where
  "maxTile g = Max (set (0 # concat (map_g g)))"

text \<open>The utility \<^verbatim>\<open>__eval\<close> returns, as a number.\<close>

definition eval_value :: "grid \<Rightarrow> int" where
  "eval_value g = (case eval g of Inr u \<Rightarrow> u | Inl e \<Rightarrow> 0)"

text \<open>
  The reference of the soundness property, written from the specification and not from
  the code: depth-bounded minimax without bounds and without pruning. \<open>k\<close> is the
  number of plies left before the depth limit. The cutoff is the same (no ply left, or a
  terminal board), a leaf has the utility of the evaluator, an insertion node takes for
  each empty cell the expectation over the modelled tile values (the weighted sum divided
  by the total weight, rounded down) and the minimum over the cells, a shift node the
  maximum over the legal shifts. A node without successor has the value the search
  starts its loop from.
\<close>

definition expected_utility :: "(int \<times> int) list \<Rightarrow> int" where
  "expected_utility ws = sum_list (map (\<lambda>(proba, u). proba * u) ws) div sum_list (map fst ws)"

fun minimax_max :: "nat \<Rightarrow> grid \<Rightarrow> int"
  and minimax_min :: "nat \<Rightarrow> grid \<Rightarrow> int" where
  "minimax_max 0 g = eval_value g"
| "minimax_max (Suc k) g =
     (if is_terminal_state g then eval_value g
      else fold max (map (\<lambda>m. minimax_min k (move g m)) (getAvailableMoves g)) (- MAX_UTILITY))"
| "minimax_min 0 g = eval_value g"
| "minimax_min (Suc k) g =
     (if is_terminal_state g then eval_value g
      else fold min
             (map (\<lambda>c. expected_utility
                          (map (\<lambda>(tile, proba). (proba, minimax_max k (setCellValue g c tile)))
                               TILE_VALUE_PROBA))
                  (getAvailableCells g))
             MAX_UTILITY)"

text \<open>What a search with the window from \<open>a\<close> to \<open>b\<close> may return for a node of
  minimax value \<open>v\<close>: the exact value inside the window, a bound on it outside.\<close>

definition fail_soft :: "int \<Rightarrow> int \<Rightarrow> int \<Rightarrow> int \<Rightarrow> bool" where
  "fail_soft a b v r = ((r \<le> a \<longrightarrow> v \<le> r) \<and> (a < r \<and> r < b \<longrightarrow> r = v) \<and> (b \<le> r \<longrightarrow> r \<le> v))"

section \<open>Boards for evaluation\<close>

text \<open>The board of the self-test at the end of \<^verbatim>\<open>PlayerAI_3.py\<close>.\<close>

definition example_board :: grid where
  "example_board = \<lparr>size_g = 4, map_g = [[0,0,2,4],[0,0,2,4],[0,2,2,2],[0,2,2,1024]]\<rparr>"

text \<open>Small boards: a full board without a legal shift; a full board without a legal
  shift that holds the target tile; a board with the target tile and two legal shifts; a
  board with two legal shifts.\<close>

definition dead_board :: grid where
  "dead_board = \<lparr>size_g = 2, map_g = [[2, 4], [4, 2]]\<rparr>"

definition won_dead_board :: grid where
  "won_dead_board = \<lparr>size_g = 2, map_g = [[2048, 4], [4, 8]]\<rparr>"

definition won_board :: grid where
  "won_board = \<lparr>size_g = 2, map_g = [[2048, 0], [4, 8]]\<rparr>"

definition small_board :: grid where
  "small_board = \<lparr>size_g = 2, map_g = [[2, 2], [4, 8]]\<rparr>"

section \<open>The exponent function\<close>

lemma bin_digits_ones: "bin_digits (2 ^ Suc k - 1) = replicate (Suc k) (CHR ''1'')"
proof (induction k)
  case 0
  show ?case by (simp add: bin_digits.simps)
next
  case (Suc k)
  define x :: nat where "x = 2 ^ k"
  have p: "1 \<le> x" by (simp add: x_def)
  have e: "(2::nat) ^ Suc (Suc k) = 4 * x" "(2::nat) ^ Suc k = 2 * x" by (simp_all add: x_def)
  have ge: "\<not> 4 * x - 1 < 2" using p by arith
  have d: "(4 * x - 1) div 2 = 2 * x - 1" using p by arith
  have m: "(4 * x - 1) mod 2 = 1" using p by arith
  have "bin_digits (4 * x - 1) = bin_digits (2 * x - 1) @ [CHR ''1'']"
    by (subst bin_digits.simps) (simp only: ge if_False d m, simp)
  then show ?case
    using Suc.IH by (simp only: e) (simp add: replicate_append_same)
qed

lemma xor_pow: "(2::int) ^ k XOR (2 ^ k - 1) = 2 ^ Suc k - 1"
proof -
  have "(2::int) ^ k XOR mask k = 2 ^ k OR mask k"
    by (rule bit_eqI) (auto simp: bit_simps)
  also have "\<dots> = mask (Suc k)" by (simp add: mask_Suc_exp)
  finally show ?thesis by (simp add: mask_eq_exp_minus_1)
qed

lemma count_list_replicate_same: "count_list (replicate k x) x = k"
  by (induction k) simp_all

lemma log2_pow2: "log2 (2 ^ k) = int k + 1"
proof -
  have "(2::int) ^ Suc k - 1 = int (2 ^ Suc k - 1)"
    by simp
  then have n: "nat ((2::int) ^ Suc k - 1) = 2 ^ Suc k - 1"
    by (simp only: nat_int)
  have "(0::int) < 2 ^ Suc k" by (rule zero_less_power) simp
  then have "\<not> (2::int) ^ Suc k - 1 < 0" by linarith
  then have "bin (2 ^ k XOR (2 ^ k - 1)) = ''0b'' @ replicate (Suc k) (CHR ''1'')"
    unfolding xor_pow bin_def by (simp only: if_False n bin_digits_ones)
  then show ?thesis by (simp add: log2_def count_list_replicate_same)
qed

text \<open>
  Claim C6. The exponent function \<^verbatim>\<open>__log2\<close> maps 0 to 0, but it maps a power
  of two \<open>2 ^ k\<close> to \<open>k + 1\<close>, not to \<open>k\<close>: \<^verbatim>\<open>value ^ (value - 1)\<close> has
  \<open>k + 1\<close> binary ones. The tile 2 has the exponent 2.
\<close>

theorem log2_is_exponent_plus_one:
  "log2 0 = 0 \<and> log2 2 = 2 \<and> (\<forall>k. log2 (2 ^ k) = int k + 1)"
proof -
  have "log2 0 = 0" by (simp add: log2_def)
  moreover have "log2 2 = 2" using log2_pow2 [of 1] by simp
  ultimately show ?thesis using log2_pow2 by simp
qed

section \<open>The evaluator returns on every square grid\<close>

lemma map_at_wf:
  assumes "wf_grid g" "\<not> crossBound g (i, j)"
  shows "map_at g i j = Inr (map_g g ! nat i ! nat j)"
proof -
  from assms have i: "0 \<le> i" "i < int (length (map_g g))" and j: "0 \<le> j" "j < int (size_g g)"
    by (simp_all add: crossBound_def wf_grid_def not_le)
  from i have "map_g g ! nat i \<in> set (map_g g)" by (simp add: nat_less_iff)
  with assms(1) have "length (map_g g ! nat i) = size_g g"
    by (simp add: wf_grid_def list_all_iff)
  with i j show ?thesis by (simp add: map_at_def getitem_def Let_def not_less)
qed

lemma positions_in_bounds: "p \<in> set (positions g) \<Longrightarrow> \<not> crossBound g p"
  by (auto simp: positions_def crossBound_def)

lemma smoothness_dirs_le: "smoothness_dirs g p sv vs acc \<le> acc"
proof (induction vs arbitrary: acc)
  case Nil
  show ?case by simp
next
  case (Cons v vs)
  show ?case
  proof (cases "getCellValue g (find_farthest_pos g p v)")
    case None
    with Cons show ?thesis by simp
  next
    case (Some t)
    have "smoothness_dirs g p sv vs (acc - \<bar>sv - log2 t\<bar>) \<le> acc - \<bar>sv - log2 t\<bar>"
      by (rule Cons.IH)
    with Some show ?thesis by simp
  qed
qed

lemma smoothness_loop_total:
  assumes "wf_grid g"
  shows "\<forall>p \<in> set ps. \<not> crossBound g p \<Longrightarrow>
         \<exists>s. smoothness_loop g ps acc = Inr s \<and> s \<le> acc"
proof (induction ps arbitrary: acc)
  case Nil
  show ?case by simp
next
  case (Cons p ps)
  from Cons.prems have inb: "\<not> crossBound g (fst p, snd p)" and rest: "\<forall>q \<in> set ps. \<not> crossBound g q"
    by simp_all
  show ?case
  proof (cases "canInsert g p")
    case True
    with Cons.IH [OF rest, of acc] show ?thesis by simp
  next
    case False
    let ?acc' = "smoothness_dirs g p (log2 (map_g g ! nat (fst p) ! nat (snd p))) [DOWN_VEC, RIGHT_VEC] acc"
    from Cons.IH [OF rest, of ?acc'] obtain s where
      s: "smoothness_loop g ps ?acc' = Inr s" "s \<le> ?acc'" by blast
    have "?acc' \<le> acc" by (rule smoothness_dirs_le)
    with s False map_at_wf [OF assms inb] show ?thesis by simp
  qed
qed

lemma smoothness_total:
  "wf_grid g \<Longrightarrow> \<exists>s. smoothness g = Inr s \<and> s \<le> 0"
  unfolding smoothness_def
  by (rule smoothness_loop_total) (auto dest: positions_in_bounds)

lemma find_farthest_pos_loop_fst_le:
  "fst p \<le> int (size_g g) \<Longrightarrow> fst (find_farthest_pos_loop g p DOWN_VEC) \<le> int (size_g g)"
proof (induction g p "DOWN_VEC" rule: find_farthest_pos_loop.induct)
  case (1 g next_pos)
  show ?case
  proof (cases "\<not> crossBound g next_pos \<and> canInsert g next_pos")
    case True
    then have "fst next_pos + 1 \<le> int (size_g g)" by (simp add: crossBound_def)
    with "1.hyps" [OF True] True show ?thesis
      by (subst find_farthest_pos_loop.simps) simp
  next
    case False
    with "1.prems" show ?thesis by (subst find_farthest_pos_loop.simps) auto
  qed
qed

lemma find_farthest_pos_loop_snd_le:
  "snd p \<le> int (size_g g) \<Longrightarrow> snd (find_farthest_pos_loop g p RIGHT_VEC) \<le> int (size_g g)"
proof (induction g p "RIGHT_VEC" rule: find_farthest_pos_loop.induct)
  case (1 g next_pos)
  show ?case
  proof (cases "\<not> crossBound g next_pos \<and> canInsert g next_pos")
    case True
    then have "snd next_pos + 1 \<le> int (size_g g)" by (simp add: crossBound_def)
    with "1.hyps" [OF True] True show ?thesis
      by (subst find_farthest_pos_loop.simps) simp
  next
    case False
    with "1.prems" show ?thesis by (subst find_farthest_pos_loop.simps) auto
  qed
qed

lemma find_farthest_pos_down_le:
  "r < int (size_g g) \<Longrightarrow> fst (find_farthest_pos g (r, c) DOWN_VEC) \<le> int (size_g g)"
  using find_farthest_pos_loop_fst_le [of "(r + 1, c)" g] by (simp add: find_farthest_pos_def)

lemma find_farthest_pos_right_le:
  "c < int (size_g g) \<Longrightarrow> snd (find_farthest_pos g (r, c) RIGHT_VEC) \<le> int (size_g g)"
  using find_farthest_pos_loop_snd_le [of "(r, c + 1)" g] by (simp add: find_farthest_pos_def)

lemma monotonicity_col_loop_total:
  assumes wf: "wf_grid g" and col: "0 \<le> col" "col < int (size_g g)"
  shows "0 \<le> r \<Longrightarrow>
         \<exists>m'. monotonicity_col_loop g col r m = Inr m' \<and> (\<forall>d. m' d \<le> m d)"
proof (induction "nat (int (size_g g) - r)" arbitrary: r m rule: less_induct)
  case less
  show ?case
  proof (cases "r < int (size_g g)")
    case False
    then show ?thesis by (subst monotonicity_col_loop.simps) simp
  next
    case True
    let ?nr = "fst (find_farthest_pos g (r, col) DOWN_VEC)"
    let ?ix = "if ?nr = int (size_g g) then int (size_g g) - 1 else ?nr"
    have nr: "r < ?nr" "?nr \<le> int (size_g g)"
      using find_farthest_pos_down [of r g col] find_farthest_pos_down_le [OF True, of col]
      by simp_all
    from less.prems True col have "\<not> crossBound g (r, col)"
      by (simp add: crossBound_def)
    from map_at_wf [OF wf this] obtain cv where cv: "map_at g r col = Inr cv" by blast
    from less.prems nr col have "\<not> crossBound g (?ix, col)"
      by (simp add: crossBound_def)
    from map_at_wf [OF wf this] obtain nv where nv: "map_at g ?ix col = Inr nv" by blast
    let ?m' = "if log2 cv < log2 nv
               then m(DOWN := m DOWN + (log2 cv - log2 nv))
               else m(UP := m UP + (log2 nv - log2 cv))"
    have le: "\<forall>d. ?m' d \<le> m d" by simp
    have "nat (int (size_g g) - ?nr) < nat (int (size_g g) - r)" using nr True by simp
    moreover have "0 \<le> ?nr" using nr less.prems by simp
    ultimately obtain m'' where
      m'': "monotonicity_col_loop g col ?nr ?m' = Inr m''" "\<forall>d. m'' d \<le> ?m' d"
      using less.hyps [of ?nr ?m'] by blast
    from m''(2) le have "\<forall>d. m'' d \<le> m d" by (meson order_trans)
    moreover have "monotonicity_col_loop g col r m = Inr m''"
      by (subst monotonicity_col_loop.simps) (simp only: True if_True Let_def cv nv sum.case m''(1))
    ultimately show ?thesis by blast
  qed
qed

lemma monotonicity_row_loop_total:
  assumes wf: "wf_grid g" and row: "0 \<le> row" "row < int (size_g g)"
  shows "0 \<le> c \<Longrightarrow>
         \<exists>m'. monotonicity_row_loop g row c m = Inr m' \<and> (\<forall>d. m' d \<le> m d)"
proof (induction "nat (int (size_g g) - c)" arbitrary: c m rule: less_induct)
  case less
  show ?case
  proof (cases "c < int (size_g g)")
    case False
    then show ?thesis by (subst monotonicity_row_loop.simps) simp
  next
    case True
    let ?nc = "snd (find_farthest_pos g (row, c) RIGHT_VEC)"
    let ?ix = "if ?nc = int (size_g g) then int (size_g g) - 1 else ?nc"
    have nc: "c < ?nc" "?nc \<le> int (size_g g)"
      using find_farthest_pos_right [of c g row] find_farthest_pos_right_le [OF True, of row]
      by simp_all
    from less.prems True row have "\<not> crossBound g (row, c)"
      by (simp add: crossBound_def)
    from map_at_wf [OF wf this] obtain cv where cv: "map_at g row c = Inr cv" by blast
    from less.prems nc row have "\<not> crossBound g (row, ?ix)"
      by (simp add: crossBound_def)
    from map_at_wf [OF wf this] obtain nv where nv: "map_at g row ?ix = Inr nv" by blast
    let ?m' = "if log2 cv < log2 nv
               then m(RIGHT := m RIGHT + (log2 cv - log2 nv))
               else m(LEFT := m LEFT + (log2 nv - log2 cv))"
    have le: "\<forall>d. ?m' d \<le> m d" by simp
    have "nat (int (size_g g) - ?nc) < nat (int (size_g g) - c)" using nc True by simp
    moreover have "0 \<le> ?nc" using nc less.prems by simp
    ultimately obtain m'' where
      m'': "monotonicity_row_loop g row ?nc ?m' = Inr m''" "\<forall>d. m'' d \<le> ?m' d"
      using less.hyps [of ?nc ?m'] by blast
    from m''(2) le have "\<forall>d. m'' d \<le> m d" by (meson order_trans)
    moreover have "monotonicity_row_loop g row c m = Inr m''"
      by (subst monotonicity_row_loop.simps) (simp only: True if_True Let_def cv nv sum.case m''(1))
    ultimately show ?thesis by blast
  qed
qed

lemma monotonicity_cols_total:
  assumes wf: "wf_grid g"
  shows "\<forall>c \<in> set cols. 0 \<le> c \<and> c < int (size_g g) \<Longrightarrow>
         \<exists>m'. monotonicity_cols g cols m = Inr m' \<and> (\<forall>d. m' d \<le> m d)"
proof (induction cols arbitrary: m)
  case Nil
  show ?case by simp
next
  case (Cons c cols)
  from Cons.prems have c: "0 \<le> c" "c < int (size_g g)" by simp_all
  from monotonicity_col_loop_total [OF wf c, of 0 m] obtain m1 where
    m1: "monotonicity_col_loop g c 0 m = Inr m1" "\<forall>d. m1 d \<le> m d" by auto
  from Cons.IH [of m1] Cons.prems obtain m2 where
    m2: "monotonicity_cols g cols m1 = Inr m2" "\<forall>d. m2 d \<le> m1 d" by auto
  from m1(2) m2(2) have "\<forall>d. m2 d \<le> m d" by (meson order_trans)
  with m1(1) m2(1) show ?case by simp
qed

lemma monotonicity_rows_total:
  assumes wf: "wf_grid g"
  shows "\<forall>r \<in> set rows. 0 \<le> r \<and> r < int (size_g g) \<Longrightarrow>
         \<exists>m'. monotonicity_rows g rows m = Inr m' \<and> (\<forall>d. m' d \<le> m d)"
proof (induction rows arbitrary: m)
  case Nil
  show ?case by simp
next
  case (Cons r rows)
  from Cons.prems have r: "0 \<le> r" "r < int (size_g g)" by simp_all
  from monotonicity_row_loop_total [OF wf r, of 0 m] obtain m1 where
    m1: "monotonicity_row_loop g r 0 m = Inr m1" "\<forall>d. m1 d \<le> m d" by auto
  from Cons.IH [of m1] Cons.prems obtain m2 where
    m2: "monotonicity_rows g rows m1 = Inr m2" "\<forall>d. m2 d \<le> m1 d" by auto
  from m1(2) m2(2) have "\<forall>d. m2 d \<le> m d" by (meson order_trans)
  with m1(1) m2(1) show ?case by simp
qed

lemma range_g_in_bounds: "\<forall>c \<in> set (range_g g). 0 \<le> c \<and> c < int (size_g g)"
  by (auto simp: range_g_def)

lemma monotonicity_total:
  assumes wf: "wf_grid g"
  shows "\<exists>m. monotonicity g = Inr m \<and> m \<le> 0"
proof -
  from monotonicity_cols_total [OF wf range_g_in_bounds, of "\<lambda>d. 0"] obtain m1 where
    m1: "monotonicity_cols g (range_g g) (\<lambda>d. 0) = Inr m1" "\<forall>d. m1 d \<le> 0" by auto
  from monotonicity_rows_total [OF wf range_g_in_bounds, of m1] obtain m2 where
    m2: "monotonicity_rows g (range_g g) m1 = Inr m2" "\<forall>d. m2 d \<le> m1 d" by auto
  from m1(2) m2(2) have "\<forall>d. m2 d \<le> 0" by (meson order_trans)
  then have "max (m2 UP) (m2 DOWN) + max (m2 LEFT) (m2 RIGHT) \<le> 0"
    by (simp add: add_nonpos_nonpos)
  with m1(1) m2(1) show ?thesis by (simp add: monotonicity_def)
qed

section \<open>The utility as a weighted sum\<close>

lemma eval_loop_eq:
  "\<forall>p \<in> set ps. \<not> crossBound g p \<Longrightarrow>
   eval_loop g ps st =
     Inr \<lparr>max_stat = fold max (map (cell g) ps) (max_stat st),
          empty_count = empty_count st + int (count_list (map (cell g) ps) 0)\<rparr>"
proof (induction ps arbitrary: st)
  case Nil
  show ?case by simp
next
  case (Cons p ps)
  from Cons.prems have v: "getCellValue g p = Some (cell g p)"
    by (simp add: getCellValue_def cell_def)
  from Cons.prems have rest: "\<forall>q \<in> set ps. \<not> crossBound g q" by simp
  show ?case
    by (simp add: v Cons.IH [OF rest] Let_def max_def)
qed

lemma cells_of_positions:
  assumes "wf_grid g"
  shows "map (cell g) (positions g) = concat (map_g g)"
proof -
  let ?n = "size_g g"
  have row: "map (\<lambda>j. map_g g ! i ! j) [0..<?n] = map_g g ! i" if "i < ?n" for i
  proof -
    from that assms have "map_g g ! i \<in> set (map_g g)" by (simp add: wf_grid_def)
    with assms have "length (map_g g ! i) = ?n" by (simp add: wf_grid_def list_all_iff)
    then show ?thesis by (metis map_nth)
  qed
  have "map (cell g) (positions g)
        = concat (map (\<lambda>i. map (\<lambda>j. map_g g ! i ! j) [0..<?n]) [0..<?n])"
    by (simp add: positions_def map_concat cell_def comp_def)
  also have "map (\<lambda>i. map (\<lambda>j. map_g g ! i ! j) [0..<?n]) [0..<?n] = map (\<lambda>i. map_g g ! i) [0..<?n]"
    by (rule map_cong) (simp_all add: row)
  also have "\<dots> = map_g g" using assms by (metis map_nth wf_grid_def)
  finally show ?thesis .
qed

lemma maxTile_fold: "maxTile g = fold max (concat (map_g g)) 0"
  unfolding maxTile_def by (rule Max.set_eq_fold)

lemma eval_total:
  assumes wf: "wf_grid g"
  shows "\<exists>s m. smoothness g = Inr s \<and> monotonicity g = Inr m \<and> s \<le> 0 \<and> m \<le> 0 \<and>
           eval g = Inr (10 * s + 20 * m + 80 * emptyCount g + 10 * maxTile g)"
proof -
  from smoothness_total [OF wf] obtain s where s: "smoothness g = Inr s" "s \<le> 0" by blast
  from monotonicity_total [OF wf] obtain m where m: "monotonicity g = Inr m" "m \<le> 0" by blast
  have "\<forall>p \<in> set (positions g). \<not> crossBound g p" by (auto dest: positions_in_bounds)
  from eval_loop_eq [OF this, of "\<lparr>max_stat = 0, empty_count = 0\<rparr>"]
  have "eval_loop g (positions g) \<lparr>max_stat = 0, empty_count = 0\<rparr> =
          Inr \<lparr>max_stat = maxTile g, empty_count = emptyCount g\<rparr>"
    by (simp add: cells_of_positions [OF wf] maxTile_fold emptyCount_def)
  with s m show ?thesis
    by (simp add: eval_def SMOOTH_WEIGHT_def MONO_WEIGHT_def EMPTY_WEIGHT_def MAX_WEIGHT_def)
qed


text \<open>Facts for evaluating the definitions on a concrete board with the simplifier.\<close>

lemma log2_values: "log2 0 = 0" "log2 2 = 2" "log2 4 = 3" "log2 8 = 4" "log2 1024 = 11" "log2 2048 = 12"
  using log2_pow2 [of 1] log2_pow2 [of 2] log2_pow2 [of 3] log2_pow2 [of 10] log2_pow2 [of 11]
  by (simp_all add: log2_def)

lemmas grid_eval =
  positions_def range_g_def canInsert_def getCellValue_def crossBound_def
  map_at_def getitem_def find_farthest_pos_def find_farthest_pos_loop.simps Let_def
  upt_rec [of _ "numeral _"] upt_rec [of 0 "numeral _"]

lemmas evaluator_eval =
  eval_def smoothness_def monotonicity_def monotonicity_col_loop.simps
  monotonicity_row_loop.simps SMOOTH_WEIGHT_def MONO_WEIGHT_def EMPTY_WEIGHT_def MAX_WEIGHT_def
  log2_values grid_eval

lemma example_board_wf: "wf_grid example_board"
  by (simp add: wf_grid_def example_board_def)

lemma example_board_smoothness: "smoothness example_board = Inr (- 21)"
  by (simp add: example_board_def evaluator_eval)

lemma example_board_monotonicity: "monotonicity example_board = Inr (- 1)"
  by (simp add: example_board_def evaluator_eval)

text \<open>
  Claim C5. On every square board \<^verbatim>\<open>__eval\<close> returns
  \<open>10 * smoothness + 20 * monotonicity + 80 * emptyCount + 10 * maxTile\<close>, where
  \<open>emptyCount\<close> counts the zero-valued cells and \<open>maxTile\<close> is the maximum raw
  tile value. On the board \<open>[[0,0,2,4],[0,0,2,4],[0,2,2,2],[0,2,2,1024]]\<close> the last two
  terms contribute \<open>80 * 6 + 10 * 1024 = 10720\<close>, smoothness is \<open>-21\<close>,
  monotonicity is \<open>-1\<close>, and the utility is the sum of the four weighted terms.
\<close>

theorem eval_weighted_sum:
  "(wf_grid g \<longrightarrow>
      (\<exists>s m. smoothness g = Inr s \<and> monotonicity g = Inr m \<and>
         eval g = Inr (10 * s + 20 * m + 80 * emptyCount g + 10 * maxTile g))) \<and>
   emptyCount example_board = 6 \<and> maxTile example_board = 1024 \<and>
   80 * emptyCount example_board + 10 * maxTile example_board = 10720 \<and>
   smoothness example_board = Inr (- 21) \<and> monotonicity example_board = Inr (- 1) \<and>
   eval example_board = Inr (10 * (- 21) + 20 * (- 1) + 10720)"
proof -
  have general: "wf_grid g \<longrightarrow>
      (\<exists>s m. smoothness g = Inr s \<and> monotonicity g = Inr m \<and>
         eval g = Inr (10 * s + 20 * m + 80 * emptyCount g + 10 * maxTile g))"
    using eval_total [of g] by blast
  have e: "emptyCount example_board = 6" by (simp add: emptyCount_def example_board_def)
  have m: "maxTile example_board = 1024" by (simp add: maxTile_def example_board_def)
  from eval_total [OF example_board_wf] example_board_smoothness example_board_monotonicity
  have "eval example_board = Inr (10 * (- 21) + 20 * (- 1) + 10720)"
    by (simp add: e m)
  with general e m example_board_smoothness example_board_monotonicity show ?thesis
    by simp
qed

theorem eval_weighted_sum_witness:
  "wf_grid example_board \<and>
   (\<exists>s m. smoothness example_board = Inr s \<and> monotonicity example_board = Inr m \<and>
      eval example_board =
        Inr (10 * s + 20 * m + 80 * emptyCount example_board + 10 * maxTile example_board))"
  using eval_weighted_sum [of example_board] example_board_wf by blast

text \<open>
  Claim C10. On every square board smoothness and monotonicity return a value, and
  neither value is positive: the two terms can only lower the utility.
\<close>

theorem heuristics_nonpositive:
  "wf_grid g \<Longrightarrow>
   \<exists>s m. smoothness g = Inr s \<and> monotonicity g = Inr m \<and> s \<le> 0 \<and> m \<le> 0"
  using eval_total [of g] by blast

theorem heuristics_nonpositive_witness:
  "wf_grid example_board \<and>
   (\<exists>s m. smoothness example_board = Inr s \<and> monotonicity example_board = Inr m \<and>
      s \<le> 0 \<and> m \<le> 0)"
  using heuristics_nonpositive [OF example_board_wf] example_board_wf by blast

section \<open>The search returns on every square grid\<close>

text \<open>The shifts and the cell update keep a grid square.\<close>

lemma wf_of_rows: "wf_grid (of_rows n f)"
  by (simp add: wf_grid_def of_rows_def list_all_iff)

lemma wf_of_columns: "wf_grid (of_columns n f)"
  by (simp add: wf_grid_def of_columns_def list_all_iff)

lemma wf_move: "wf_grid (move g d)"
  by (cases d) (simp_all add: wf_of_rows wf_of_columns)

lemma size_move: "size_g (move g d) = size_g g"
  by (cases d) (simp_all add: of_rows_def of_columns_def)

lemma wf_setCellValue: "wf_grid g \<Longrightarrow> wf_grid (setCellValue g p v)"
proof (cases "nat (fst p) < length (map_g g)")
  case True
  assume wf: "wf_grid g"
  with True have "length (map_g g ! nat (fst p)) = size_g g"
    by (simp add: wf_grid_def list_all_iff)
  with wf True show ?thesis
    by (auto simp: wf_grid_def setCellValue_def list_all_iff
        dest!: set_update_subset_insert [THEN subsetD])
next
  case False
  assume "wf_grid g"
  moreover from False have "(map_g g)[nat (fst p) := (map_g g ! nat (fst p))[nat (snd p) := v]] = map_g g"
    by (simp add: list_update_beyond)
  ultimately show ?thesis by (simp add: wf_grid_def setCellValue_def)
qed

lemma size_setCellValue: "size_g (setCellValue g p v) = size_g g"
  by (simp add: setCellValue_def)

text \<open>One round of each loop, with the one item of \<open>TILE_VALUE_PROBA\<close> spelled out:
  the expected utility of a cell is \<open>(9 * u) div 9\<close>.\<close>

lemma expected_loop_proba:
  "expected_loop n gc depth m TILE_VALUE_PROBA (0, 0) alpha beta =
     (case maximize n (setCellValue gc m 2) (depth + 1) alpha beta of
        Inl e \<Rightarrow> Inl e
      | Inr (mv, cond_utility) \<Rightarrow> Inr (9 * cond_utility, 9))"
  by (simp add: TILE_VALUE_PROBA_def split: sum.splits)

lemma minimize_loop_Cons:
  "minimize_loop n g depth (m # ms) (min_move, min_utility) alpha beta =
     (case maximize n (setCellValue g m 2) (depth + 1) alpha beta of
        Inl e \<Rightarrow> Inl e
      | Inr (mv, utility) \<Rightarrow>
          if utility \<le> alpha
          then Inr (if utility < min_utility then (Some m, utility) else (min_move, min_utility))
          else minimize_loop n g depth ms
                 (if utility < min_utility then (Some m, utility) else (min_move, min_utility))
                 alpha (if utility < beta then utility else beta))"
  by (simp add: expected_loop_proba clone_def split: sum.splits)

lemma maximize_loop_Cons:
  "maximize_loop n g depth (m # ms) (max_move, max_utility) alpha beta =
     (case minimize n (move g m) (depth + 1) alpha beta of
        Inl e \<Rightarrow> Inl e
      | Inr (mv, utility) \<Rightarrow>
          if beta \<le> utility
          then Inr (if max_utility < utility then (Some m, utility) else (max_move, max_utility))
          else maximize_loop n g depth ms
                 (if max_utility < utility then (Some m, utility) else (max_move, max_utility))
                 (if alpha < utility then utility else alpha) beta)"
  by (simp add: clone_def split: sum.splits)

lemma eval_wf: "wf_grid g \<Longrightarrow> eval g = Inr (eval_value g)"
  using eval_total [of g] by (auto simp: eval_value_def)

lemma maximize_loop_total:
  assumes calls: "\<And>h a b. wf_grid h \<Longrightarrow> \<exists>r. minimize n h (depth + 1) a b = Inr r"
  shows "\<exists>r. maximize_loop n g depth ms best alpha beta = Inr r"
proof (induction ms arbitrary: best alpha)
  case Nil
  show ?case by (cases best) simp
next
  case (Cons m ms)
  obtain mm mu where best: "best = (mm, mu)" by (cases best)
  from calls [OF wf_move, of g m alpha beta] obtain mv u where
    u: "minimize n (move g m) (depth + 1) alpha beta = Inr (mv, u)" by auto
  show ?case
    unfolding best maximize_loop_Cons u
    using Cons.IH by (simp del: maximize_loop.simps)
qed

lemma minimize_loop_total:
  assumes wf: "wf_grid g"
    and calls: "\<And>h a b. wf_grid h \<Longrightarrow> \<exists>r. maximize n h (depth + 1) a b = Inr r"
  shows "\<exists>r. minimize_loop n g depth ms best alpha beta = Inr r"
proof (induction ms arbitrary: best beta)
  case Nil
  show ?case by (cases best) simp
next
  case (Cons m ms)
  obtain mm mu where best: "best = (mm, mu)" by (cases best)
  from calls [OF wf_setCellValue [OF wf], of m 2 alpha beta] obtain mv u where
    u: "maximize n (setCellValue g m 2) (depth + 1) alpha beta = Inr (mv, u)" by auto
  show ?case
    unfolding best minimize_loop_Cons u
    using Cons.IH by (simp del: minimize_loop.simps)
qed

lemma search_total:
  "wf_grid g \<Longrightarrow> depth \<le> MAX_DEPTH \<Longrightarrow> MAX_DEPTH - depth < int n \<Longrightarrow>
   (\<exists>r. maximize n g depth alpha beta = Inr r) \<and> (\<exists>r. minimize n g depth alpha beta = Inr r)"
proof (induction n arbitrary: g depth alpha beta)
  case 0
  then show ?case by simp
next
  case (Suc n)
  show ?case
  proof (cases "depth = MAX_DEPTH \<or> is_terminal_state g")
    case True
    with eval_wf [OF Suc.prems(1)] show ?thesis by simp
  next
    case False
    with Suc.prems have d: "depth + 1 \<le> MAX_DEPTH" "MAX_DEPTH - (depth + 1) < int n"
      by simp_all
    have mx: "\<exists>r. maximize n h (depth + 1) a b = Inr r"
      and mn: "\<exists>r. minimize n h (depth + 1) a b = Inr r" if "wf_grid h" for h a b
      using Suc.IH [OF that d] by blast+
    from False maximize_loop_total [of n depth, OF mn]
      minimize_loop_total [of g n depth, OF Suc.prems(1) mx]
    show ?thesis by simp
  qed
qed

section \<open>Evaluation on concrete boards\<close>

lemmas move_eval =
  getAvailableMoves_def of_rows_def of_columns_def slide_def column_def Let_def
  upt_rec [of _ "numeral _"] upt_rec [of 0 "numeral _"]

lemmas search_eval =
  is_terminal_state_def getMaxTile_def TARGET_TILE_VALUE_def MAX_DEPTH_def MAX_UTILITY_def
  getAvailableCells_def

lemma dead_board_moves: "getAvailableMoves dead_board = []"
  by (simp add: dead_board_def move_eval)

lemma dead_board_cells: "getAvailableCells dead_board = []"
  by (simp add: dead_board_def search_eval grid_eval)

lemma dead_board_not_terminal: "\<not> is_terminal_state dead_board"
  by (simp add: dead_board_def search_eval)

lemma dead_board_eval: "eval dead_board = Inr (- 40)"
  by (simp add: dead_board_def evaluator_eval)

lemma dead_board_wf: "wf_grid dead_board"
  by (simp add: dead_board_def wf_grid_def)

lemma won_dead_board_moves: "getAvailableMoves won_dead_board = []"
  by (simp add: won_dead_board_def move_eval)

lemma won_dead_board_terminal: "is_terminal_state won_dead_board"
  by (simp add: won_dead_board_def search_eval)

lemma won_board_moves: "getAvailableMoves won_board = [UP, RIGHT]"
  by (simp add: won_board_def move_eval)

lemma won_board_terminal: "is_terminal_state won_board"
  by (simp add: won_board_def search_eval)

lemma small_board_moves: "getAvailableMoves small_board = [LEFT, RIGHT]"
  by (simp add: small_board_def move_eval)

lemma small_board_max: "getMaxTile small_board = 8"
  by (simp add: small_board_def search_eval)

section \<open>The move chosen at the root\<close>

lemma maximize_loop_move:
  "maximize_loop n g depth ms (mm, mu) alpha beta = Inr (mv, u) \<Longrightarrow>
   mv = mm \<or> (\<exists>m \<in> set ms. mv = Some m)"
proof (induction ms arbitrary: mm mu alpha)
  case Nil
  then show ?case by simp
next
  case (Cons m ms)
  from Cons.prems obtain mv' u' where
    u': "minimize n (move g m) (depth + 1) alpha beta = Inr (mv', u')"
    by (auto simp: maximize_loop_Cons simp del: maximize_loop.simps split: sum.splits)
  show ?case
  proof (cases "beta \<le> u'")
    case True
    with Cons.prems u' show ?thesis
      by (auto simp: maximize_loop_Cons simp del: maximize_loop.simps split: if_splits)
  next
    case False
    with Cons.prems u' have
      "maximize_loop n g depth ms (if mu < u' then (Some m, u') else (mm, mu))
         (if alpha < u' then u' else alpha) beta = Inr (mv, u)"
      by (simp add: maximize_loop_Cons del: maximize_loop.simps)
    then show ?thesis
      using Cons.IH [of "Some m" u' "if alpha < u' then u' else alpha"]
        Cons.IH [of mm mu "if alpha < u' then u' else alpha"]
      by (auto split: if_splits)
  qed
qed

lemma getitem_in_range:
  "0 \<le> i \<Longrightarrow> i < int (length xs) \<Longrightarrow> getitem xs i = Inr (xs ! nat i)"
  by (simp add: getitem_def)

lemma randint_index:
  "xs \<noteq> [] \<Longrightarrow> randint 0 (int (length xs) - 1) rnd = Inr (rnd mod int (length xs))"
  by (simp add: randint_def)

lemma fallback_choice:
  assumes "xs \<noteq> []"
  shows "(case randint 0 (int (length xs) - 1) rnd of Inl e \<Rightarrow> Inl e | Inr i \<Rightarrow> getitem xs i)
         = Inr (xs ! nat (rnd mod int (length xs)))"
proof -
  from assms have "0 < int (length xs)" by simp
  then have "0 \<le> rnd mod int (length xs)" "rnd mod int (length xs) < int (length xs)"
    by simp_all
  then show ?thesis by (simp add: randint_index [OF assms] getitem_in_range)
qed

text \<open>
  Claim C3. For every square board with at least one legal shift and a maximum tile below
  the target value 2048, \<^verbatim>\<open>getMove\<close> (with the five stack frames a search from
  depth 0 needs) returns a direction that \<open>getAvailableMoves\<close> lists, whatever the
  random generator draws.
\<close>

theorem getMove_returns_legal_move:
  assumes "wf_grid g" and "getAvailableMoves g \<noteq> []"
    and "getMaxTile g < TARGET_TILE_VALUE" and "5 \<le> n"
  shows "\<exists>m. getMove n rnd g = Inr m \<and> m \<in> set (getAvailableMoves g)"
proof -
  from assms(4) obtain k where n: "n = Suc k" by (cases n) simp_all
  from assms(4) have "MAX_DEPTH - 0 < int n" by (simp add: MAX_DEPTH_def)
  with search_total [OF assms(1), of 0 n "- MAX_UTILITY" MAX_UTILITY] obtain mv u where
    r: "maximize n g 0 (- MAX_UTILITY) MAX_UTILITY = Inr (mv, u)"
    by (auto simp: MAX_DEPTH_def)
  from assms(3) have "\<not> (0 = MAX_DEPTH \<or> is_terminal_state g)"
    by (simp add: MAX_DEPTH_def is_terminal_state_def)
  with r have "maximize_loop k g 0 (getAvailableMoves g) (None, - MAX_UTILITY)
                 (- MAX_UTILITY) MAX_UTILITY = Inr (mv, u)"
    by (simp add: n)
  from maximize_loop_move [OF this]
  consider "mv = None" | m where "mv = Some m" "m \<in> set (getAvailableMoves g)" by blast
  then show ?thesis
  proof cases
    case 1
    let ?ms = "getAvailableMoves g"
    from assms(2) have "0 < int (length ?ms)" by simp
    then have "nat (rnd mod int (length ?ms)) < length ?ms"
      by (simp add: nat_less_iff)
    then have "?ms ! nat (rnd mod int (length ?ms)) \<in> set ?ms" by simp
    with 1 r fallback_choice [OF assms(2), of rnd] show ?thesis
      by (simp add: getMove_def Let_def)
  next
    case 2
    with r show ?thesis by (simp add: getMove_def)
  qed
qed

lemma small_board_wf: "wf_grid small_board"
  by (simp add: small_board_def wf_grid_def)

theorem getMove_returns_legal_move_witness:
  "wf_grid small_board \<and> getAvailableMoves small_board \<noteq> [] \<and>
   getMaxTile small_board < TARGET_TILE_VALUE \<and> (5::nat) \<le> 5 \<and>
   (\<exists>m. getMove 5 0 small_board = Inr m \<and> m \<in> set (getAvailableMoves small_board))"
proof -
  have h: "wf_grid small_board" "getAvailableMoves small_board \<noteq> []"
    "getMaxTile small_board < TARGET_TILE_VALUE" "(5::nat) \<le> 5"
    by (simp_all add: small_board_wf small_board_moves small_board_max TARGET_TILE_VALUE_def)
  from getMove_returns_legal_move [OF h, of 0] h show ?thesis by blast
qed

section \<open>Cutoff, empty loops and the depth of the recursion\<close>

declare maximize_loop.simps(2) [simp del] minimize_loop.simps(2) [simp del]

text \<open>With one stack frame a call returns only if it makes no nested call.\<close>

lemma maximize_one_frame:
  "maximize 1 g d alpha beta =
     (if d = MAX_DEPTH \<or> is_terminal_state g
      then (case eval g of Inl e \<Rightarrow> Inl e | Inr u \<Rightarrow> Inr (None, u))
      else if getAvailableMoves g = [] then Inr (None, - MAX_UTILITY)
      else Inl RecursionError)"
proof -
  have "maximize_loop 0 g d ms (None, - MAX_UTILITY) alpha beta =
          (if ms = [] then Inr (None, - MAX_UTILITY) else Inl RecursionError)" for ms
    by (cases ms) (simp_all add: maximize_loop_Cons)
  then show ?thesis by simp
qed

lemma minimize_one_frame:
  "minimize 1 g d alpha beta =
     (if d = MAX_DEPTH \<or> is_terminal_state g
      then (case eval g of Inl e \<Rightarrow> Inl e | Inr u \<Rightarrow> Inr (None, u))
      else if getAvailableCells g = [] then Inr (None, MAX_UTILITY)
      else Inl RecursionError)"
proof -
  have "minimize_loop 0 g d ms (None, MAX_UTILITY) alpha beta =
          (if ms = [] then Inr (None, MAX_UTILITY) else Inl RecursionError)" for ms
    by (cases ms) (simp_all add: minimize_loop_Cons)
  then show ?thesis by simp
qed

lemma maximize_one_frame_wf:
  "wf_grid g \<Longrightarrow>
   maximize 1 g d alpha beta =
     (if d = MAX_DEPTH \<or> is_terminal_state g then Inr (None, eval_value g)
      else if getAvailableMoves g = [] then Inr (None, - MAX_UTILITY)
      else Inl RecursionError)"
  unfolding maximize_one_frame by (simp add: eval_wf)

lemma minimize_one_frame_wf:
  "wf_grid g \<Longrightarrow>
   minimize 1 g d alpha beta =
     (if d = MAX_DEPTH \<or> is_terminal_state g then Inr (None, eval_value g)
      else if getAvailableCells g = [] then Inr (None, MAX_UTILITY)
      else Inl RecursionError)"
  unfolding minimize_one_frame by (simp add: eval_wf)

lemma maximize_no_moves:
  "0 < n \<Longrightarrow> d \<noteq> MAX_DEPTH \<Longrightarrow> \<not> is_terminal_state g \<Longrightarrow> getAvailableMoves g = [] \<Longrightarrow>
   maximize n g d alpha beta = Inr (None, - MAX_UTILITY)"
  by (cases n) simp_all

lemma minimize_no_cells:
  "0 < n \<Longrightarrow> d \<noteq> MAX_DEPTH \<Longrightarrow> \<not> is_terminal_state g \<Longrightarrow> getAvailableCells g = [] \<Longrightarrow>
   minimize n g d alpha beta = Inr (None, MAX_UTILITY)"
  by (cases n) simp_all

lemma maximize_cutoff:
  "0 < n \<Longrightarrow> d = MAX_DEPTH \<or> is_terminal_state g \<Longrightarrow> wf_grid g \<Longrightarrow>
   maximize n g d alpha beta = Inr (None, eval_value g)"
  by (cases n) (simp_all add: eval_wf)

lemma minimize_cutoff:
  "0 < n \<Longrightarrow> d = MAX_DEPTH \<or> is_terminal_state g \<Longrightarrow> wf_grid g \<Longrightarrow>
   minimize n g d alpha beta = Inr (None, eval_value g)"
  by (cases n) (simp_all add: eval_wf)

text \<open>A result does not change when more stack frames are available.\<close>

lemma maximize_loop_more_frames:
  assumes child: "\<And>h a' r. minimize n h (d + 1) a' beta = Inr r \<Longrightarrow>
                    minimize (Suc n) h (d + 1) a' beta = Inr r"
  shows "maximize_loop n g d ms (mm, mu) alpha beta = Inr r \<Longrightarrow>
         maximize_loop (Suc n) g d ms (mm, mu) alpha beta = Inr r"
proof (induction ms arbitrary: mm mu alpha)
  case Nil
  then show ?case by auto
next
  case (Cons m ms)
  from Cons.prems obtain mv u where
    u: "minimize n (move g m) (d + 1) alpha beta = Inr (mv, u)"
    by (auto simp: maximize_loop_Cons split: sum.splits)
  note u' = child [OF u]
  show ?case
  proof (cases "beta \<le> u")
    case True
    with Cons.prems u u' show ?thesis by (simp add: maximize_loop_Cons)
  next
    case False
    with Cons.prems u have
      "maximize_loop n g d ms (if mu < u then (Some m, u) else (mm, mu))
         (if alpha < u then u else alpha) beta = Inr r"
      by (simp add: maximize_loop_Cons)
    then have
      "maximize_loop (Suc n) g d ms (if mu < u then (Some m, u) else (mm, mu))
         (if alpha < u then u else alpha) beta = Inr r"
      using Cons.IH [of "Some m" u] Cons.IH [of mm mu] by (simp split: if_splits)
    with False u' show ?thesis by (simp add: maximize_loop_Cons)
  qed
qed

lemma minimize_loop_more_frames:
  assumes child: "\<And>h b' r. maximize n h (d + 1) alpha b' = Inr r \<Longrightarrow>
                    maximize (Suc n) h (d + 1) alpha b' = Inr r"
  shows "minimize_loop n g d ms (mm, mu) alpha beta = Inr r \<Longrightarrow>
         minimize_loop (Suc n) g d ms (mm, mu) alpha beta = Inr r"
proof (induction ms arbitrary: mm mu beta)
  case Nil
  then show ?case by auto
next
  case (Cons m ms)
  from Cons.prems obtain mv u where
    u: "maximize n (setCellValue g m 2) (d + 1) alpha beta = Inr (mv, u)"
    by (auto simp: minimize_loop_Cons split: sum.splits)
  note u' = child [OF u]
  show ?case
  proof (cases "u \<le> alpha")
    case True
    with Cons.prems u u' show ?thesis by (simp add: minimize_loop_Cons)
  next
    case False
    with Cons.prems u have
      "minimize_loop n g d ms (if u < mu then (Some m, u) else (mm, mu)) alpha
         (if u < beta then u else beta) = Inr r"
      by (simp add: minimize_loop_Cons)
    then have
      "minimize_loop (Suc n) g d ms (if u < mu then (Some m, u) else (mm, mu)) alpha
         (if u < beta then u else beta) = Inr r"
      using Cons.IH [of "Some m" u] Cons.IH [of mm mu] by (simp split: if_splits)
    with False u' show ?thesis by (simp add: minimize_loop_Cons)
  qed
qed

lemma search_one_more_frame:
  "(maximize n g d alpha beta = Inr r \<longrightarrow> maximize (Suc n) g d alpha beta = Inr r) \<and>
   (minimize n g d alpha beta = Inr r' \<longrightarrow> minimize (Suc n) g d alpha beta = Inr r')"
proof (induction n arbitrary: g d alpha beta r r')
  case 0
  show ?case by simp
next
  case (Suc n)
  show ?case
  proof (cases "d = MAX_DEPTH \<or> is_terminal_state g")
    case True
    then show ?thesis by simp
  next
    case False
    obtain mm mu where r: "r = (mm, mu)" by (cases r)
    have mn: "minimize (Suc n) h (d + 1) a' beta = Inr x"
      if "minimize n h (d + 1) a' beta = Inr x" for h a' x
      using Suc.IH [of h "d + 1" a' beta undefined x] that by simp
    have mx: "maximize (Suc n) h (d + 1) alpha b' = Inr x"
      if "maximize n h (d + 1) alpha b' = Inr x" for h b' x
      using Suc.IH [of h "d + 1" alpha b' x undefined] that by simp
    from False maximize_loop_more_frames [of n d beta g _ None "- MAX_UTILITY" alpha r, OF mn]
      minimize_loop_more_frames [of n d alpha g _ None MAX_UTILITY beta r', OF mx]
    show ?thesis by simp
  qed
qed

lemma search_more_frames:
  "n \<le> n' \<Longrightarrow>
   (maximize n g d alpha beta = Inr r \<longrightarrow> maximize n' g d alpha beta = Inr r) \<and>
   (minimize n g d alpha beta = Inr r' \<longrightarrow> minimize n' g d alpha beta = Inr r')"
proof (induction n' arbitrary: r r')
  case 0
  then show ?case by simp
next
  case (Suc n')
  show ?case
  proof (cases "n = Suc n'")
    case True
    then show ?thesis by simp
  next
    case False
    with Suc.prems have "n \<le> n'" by simp
    from Suc.IH [OF this] search_one_more_frame [of n' g d alpha beta r r']
    show ?thesis by blast
  qed
qed

text \<open>
  Claim C9. For every square board and every starting depth \<open>d\<close> from 0 to 4, both
  procedures return when \<open>4 - d + 1\<close> stack frames are available, and with more frames
  they return the same: every nested call is made at \<open>depth + 1\<close>, so a path of calls
  from depth \<open>d\<close> is never longer than that. With a single frame a procedure returns
  the static evaluation exactly at the cutoff (depth 4, or the maximum tile equal to the
  target); below the cutoff it enters its loop, and needs a second frame as soon as the
  loop has one item.
\<close>

theorem search_terminates:
  assumes "wf_grid g" and "0 \<le> d" and "d \<le> MAX_DEPTH" and "nat (MAX_DEPTH - d) < n"
  shows "(\<exists>r. maximize n g d alpha beta = Inr r) \<and>
         (\<exists>r. minimize n g d alpha beta = Inr r) \<and>
         maximize n g d alpha beta = maximize (Suc (nat (MAX_DEPTH - d))) g d alpha beta \<and>
         minimize n g d alpha beta = minimize (Suc (nat (MAX_DEPTH - d))) g d alpha beta \<and>
         maximize 1 g d alpha beta =
           (if d = MAX_DEPTH \<or> is_terminal_state g then Inr (None, eval_value g)
            else if getAvailableMoves g = [] then Inr (None, - MAX_UTILITY)
            else Inl RecursionError) \<and>
         minimize 1 g d alpha beta =
           (if d = MAX_DEPTH \<or> is_terminal_state g then Inr (None, eval_value g)
            else if getAvailableCells g = [] then Inr (None, MAX_UTILITY)
            else Inl RecursionError)"
proof -
  let ?n0 = "Suc (nat (MAX_DEPTH - d))"
  from assms(3) have "MAX_DEPTH - d < int ?n0" by simp
  from search_total [OF assms(1,3) this, of alpha beta] obtain r r' where
    r: "maximize ?n0 g d alpha beta = Inr r" "minimize ?n0 g d alpha beta = Inr r'"
    by blast
  from assms(4) have "?n0 \<le> n" by simp
  from search_more_frames [OF this, of g d alpha beta r r'] r
  have n: "maximize n g d alpha beta = Inr r" "minimize n g d alpha beta = Inr r'"
    by simp_all
  from n r have
    "(\<exists>r. maximize n g d alpha beta = Inr r) \<and> (\<exists>r. minimize n g d alpha beta = Inr r) \<and>
     maximize n g d alpha beta = maximize ?n0 g d alpha beta \<and>
     minimize n g d alpha beta = minimize ?n0 g d alpha beta"
    by simp
  with maximize_one_frame_wf [OF assms(1), of d alpha beta]
    minimize_one_frame_wf [OF assms(1), of d alpha beta]
  show ?thesis by blast
qed

theorem search_terminates_witness:
  "wf_grid small_board \<and> (0::int) \<le> 0 \<and> 0 \<le> MAX_DEPTH \<and> nat (MAX_DEPTH - 0) < 5 \<and>
   (\<exists>r. maximize 5 small_board 0 (- MAX_UTILITY) MAX_UTILITY = Inr r) \<and>
   (\<exists>r. minimize 5 small_board 0 (- MAX_UTILITY) MAX_UTILITY = Inr r) \<and>
   maximize 1 small_board 0 (- MAX_UTILITY) MAX_UTILITY = Inl RecursionError"
proof -
  have h: "wf_grid small_board" "(0::int) \<le> 0" "0 \<le> MAX_DEPTH" "nat (MAX_DEPTH - 0) < 5"
    by (simp_all add: small_board_wf MAX_DEPTH_def)
  have nc: "\<not> (0 = MAX_DEPTH \<or> is_terminal_state small_board)"
    by (simp add: MAX_DEPTH_def is_terminal_state_def small_board_max TARGET_TILE_VALUE_def)
  note t = search_terminates [OF h, of "- MAX_UTILITY" MAX_UTILITY]
  from t have a: "\<exists>r. maximize 5 small_board 0 (- MAX_UTILITY) MAX_UTILITY = Inr r"
    by (rule conjunct1)
  from t have b: "\<exists>r. minimize 5 small_board 0 (- MAX_UTILITY) MAX_UTILITY = Inr r"
    by blast
  from t have c0: "maximize 1 small_board 0 (- MAX_UTILITY) MAX_UTILITY =
      (if 0 = MAX_DEPTH \<or> is_terminal_state small_board
       then Inr (None, eval_value small_board)
       else if getAvailableMoves small_board = [] then Inr (None, - MAX_UTILITY)
       else Inl RecursionError)"
    by blast
  have c: "maximize 1 small_board 0 (- MAX_UTILITY) MAX_UTILITY = Inl RecursionError"
    unfolding c0 using nc by (simp add: small_board_moves)
  from a b c h show ?thesis by blast
qed

text \<open>
  Claim C1, as stated, fails: on the full board \<open>[[2,4],[4,2]]\<close>, which has no legal
  shift, no empty cell, and is not at the cutoff, \<^verbatim>\<open>__maximize\<close> returns
  \<open>(None, -sys.maxsize)\<close> and \<^verbatim>\<open>__minimize\<close> returns \<open>(None, sys.maxsize)\<close>,
  while the evaluation of the board is \<open>-40\<close>.
\<close>

theorem no_successor_returns_evaluation_counterexample:
  "\<not> is_terminal_state dead_board \<and> (0::int) < 4 \<and>
   getAvailableMoves dead_board = [] \<and> getAvailableCells dead_board = [] \<and>
   eval dead_board = Inr (- 40) \<and>
   maximize 5 dead_board 0 (- MAX_UTILITY) MAX_UTILITY = Inr (None, - 9223372036854775807) \<and>
   maximize 5 dead_board 0 (- MAX_UTILITY) MAX_UTILITY \<noteq> Inr (None, - 40) \<and>
   minimize 5 dead_board 0 (- MAX_UTILITY) MAX_UTILITY = Inr (None, 9223372036854775807) \<and>
   minimize 5 dead_board 0 (- MAX_UTILITY) MAX_UTILITY \<noteq> Inr (None, - 40)"
proof -
  have m: "maximize 5 dead_board 0 (- MAX_UTILITY) MAX_UTILITY = Inr (None, - MAX_UTILITY)"
    by (rule maximize_no_moves)
       (simp_all add: MAX_DEPTH_def dead_board_not_terminal dead_board_moves)
  have c: "minimize 5 dead_board 0 (- MAX_UTILITY) MAX_UTILITY = Inr (None, MAX_UTILITY)"
    by (rule minimize_no_cells)
       (simp_all add: MAX_DEPTH_def dead_board_not_terminal dead_board_cells)
  from m c show ?thesis
    by (simp add: dead_board_not_terminal dead_board_moves dead_board_cells
        dead_board_eval MAX_UTILITY_def)
qed

text \<open>
  Claim C1, amended. For every call that is not at the cutoff, if the board has no legal
  shift then \<^verbatim>\<open>__maximize\<close> returns \<open>(None, -MAX_UTILITY)\<close>, and if the board has
  no empty cell then \<^verbatim>\<open>__minimize\<close> returns \<open>(None, MAX_UTILITY)\<close>: the values
  the two loops start from.
\<close>

theorem no_successor_returns_sentinel:
  assumes "0 < n" and "d \<noteq> MAX_DEPTH" and "\<not> is_terminal_state g"
  shows "(getAvailableMoves g = [] \<longrightarrow>
            maximize n g d alpha beta = Inr (None, - MAX_UTILITY)) \<and>
         (getAvailableCells g = [] \<longrightarrow>
            minimize n g d alpha beta = Inr (None, MAX_UTILITY))"
  using assms by (simp add: maximize_no_moves minimize_no_cells)

theorem no_successor_returns_sentinel_witness:
  "(0::nat) < 1 \<and> (0::int) \<noteq> MAX_DEPTH \<and> \<not> is_terminal_state dead_board \<and>
   getAvailableMoves dead_board = [] \<and> getAvailableCells dead_board = [] \<and>
   maximize 1 dead_board 0 (- MAX_UTILITY) MAX_UTILITY = Inr (None, - MAX_UTILITY) \<and>
   minimize 1 dead_board 0 (- MAX_UTILITY) MAX_UTILITY = Inr (None, MAX_UTILITY)"
proof -
  have h: "(0::nat) < 1" "(0::int) \<noteq> MAX_DEPTH" "\<not> is_terminal_state dead_board"
    by (simp_all add: MAX_DEPTH_def dead_board_not_terminal)
  from no_successor_returns_sentinel [OF h, of "- MAX_UTILITY" MAX_UTILITY] h
  show ?thesis by (simp add: dead_board_moves dead_board_cells)
qed

section \<open>The fallback to a random move\<close>

lemma getMove_no_moves:
  assumes "maximize n g 0 (- MAX_UTILITY) MAX_UTILITY = Inr (None, u)"
    and "getAvailableMoves g = []"
  shows "getMove n rnd g = Inl ValueError"
  using assms by (simp add: getMove_def randint_def)

lemma won_dead_board_wf: "wf_grid won_dead_board"
  by (simp add: won_dead_board_def wf_grid_def)

lemma won_board_wf: "wf_grid won_board"
  by (simp add: won_board_def wf_grid_def)

text \<open>
  Claim C4. On a board without a legal shift \<^verbatim>\<open>getMove\<close> does not return none:
  the search returns no move, the list of legal moves is empty, and
  \<^verbatim>\<open>randint(0, -1)\<close> raises \<open>ValueError\<close>. Evaluated on the full board
  \<open>[[2,4],[4,2]]\<close> and on the full board \<open>[[2048,4],[4,8]]\<close>.
\<close>

theorem getMove_raises_without_moves:
  "getAvailableMoves dead_board = [] \<and> getMove 1 rnd dead_board = Inl ValueError \<and>
   getMove 5 rnd dead_board = Inl ValueError \<and>
   getAvailableMoves won_dead_board = [] \<and> getMove 5 rnd won_dead_board = Inl ValueError"
proof -
  have "maximize n dead_board 0 (- MAX_UTILITY) MAX_UTILITY = Inr (None, - MAX_UTILITY)"
    if "0 < n" for n
    using that
    by (rule maximize_no_moves)
       (simp_all add: MAX_DEPTH_def dead_board_not_terminal dead_board_moves)
  from this [of 1] this [of 5]
  have a: "getMove 1 rnd dead_board = Inl ValueError" "getMove 5 rnd dead_board = Inl ValueError"
    by (simp_all add: getMove_no_moves dead_board_moves)
  have "maximize 5 won_dead_board 0 (- MAX_UTILITY) MAX_UTILITY
          = Inr (None, eval_value won_dead_board)"
    by (rule maximize_cutoff) (simp_all add: won_dead_board_terminal won_dead_board_wf)
  then have "getMove 5 rnd won_dead_board = Inl ValueError"
    by (rule getMove_no_moves) (rule won_dead_board_moves)
  with a show ?thesis by (simp add: dead_board_moves won_dead_board_moves)
qed

text \<open>
  Claim C7, as stated, fails on a board that holds the target tile and has no legal
  shift: there \<^verbatim>\<open>getMove\<close> raises \<open>ValueError\<close> and returns no direction.
\<close>

theorem terminal_board_random_move_counterexample:
  "getMaxTile won_dead_board = TARGET_TILE_VALUE \<and> getAvailableMoves won_dead_board = [] \<and>
   getMove 5 0 won_dead_board = Inl ValueError"
proof -
  have "maximize 5 won_dead_board 0 (- MAX_UTILITY) MAX_UTILITY
          = Inr (None, eval_value won_dead_board)"
    by (rule maximize_cutoff) (simp_all add: won_dead_board_terminal won_dead_board_wf)
  then have "getMove 5 0 won_dead_board = Inl ValueError"
    by (rule getMove_no_moves) (rule won_dead_board_moves)
  with won_dead_board_terminal won_dead_board_moves show ?thesis
    by (simp add: is_terminal_state_def)
qed

lemma distinct_getAvailableMoves: "distinct (getAvailableMoves g)"
  by (simp add: getAvailableMoves_def)

text \<open>
  Claim C7, amended. For every square board whose maximum tile equals the target value
  and that has at least one legal shift: the call of \<^verbatim>\<open>__maximize\<close> at the root
  returns the static evaluation within its own stack frame, so no search call is nested
  in it; \<^verbatim>\<open>getMove\<close> returns the legal move at the index the random generator
  draws; and the draws \<open>0, ..., len - 1\<close> yield the legal moves one by one, each
  exactly once, so a uniform draw gives a uniform choice among the legal directions.
\<close>

theorem terminal_board_random_move:
  assumes "getMaxTile g = TARGET_TILE_VALUE" and "wf_grid g"
    and "getAvailableMoves g \<noteq> []" and "0 < n"
  shows "maximize 1 g 0 (- MAX_UTILITY) MAX_UTILITY = Inr (None, eval_value g) \<and>
         getMove n rnd g =
           Inr (getAvailableMoves g ! nat (rnd mod int (length (getAvailableMoves g)))) \<and>
         map (\<lambda>i. getMove n (int i) g) [0..<length (getAvailableMoves g)]
           = map Inr (getAvailableMoves g) \<and>
         distinct (getAvailableMoves g)"
proof -
  from assms(1) have t: "0 = MAX_DEPTH \<or> is_terminal_state g"
    by (simp add: is_terminal_state_def)
  have m: "maximize k g 0 (- MAX_UTILITY) MAX_UTILITY = Inr (None, eval_value g)" if "0 < k" for k
    using that t assms(2) by (rule maximize_cutoff)
  have g: "getMove n r g =
      Inr (getAvailableMoves g ! nat (r mod int (length (getAvailableMoves g))))" for r
    using m [OF assms(4)] fallback_choice [OF assms(3), of r]
    by (simp add: getMove_def Let_def)
  have "map (\<lambda>i. getMove n (int i) g) [0..<length (getAvailableMoves g)]
          = map (\<lambda>i. Inr (getAvailableMoves g ! i)) [0..<length (getAvailableMoves g)]"
    by (rule map_cong) (simp_all add: g)
  also have "\<dots> = map Inr (map (\<lambda>i. getAvailableMoves g ! i) [0..<length (getAvailableMoves g)])"
    by simp
  also have "\<dots> = map Inr (getAvailableMoves g)" by (simp only: map_nth)
  finally show ?thesis using m [of 1] g [of rnd] distinct_getAvailableMoves by simp
qed

theorem terminal_board_random_move_witness:
  "getMaxTile won_board = TARGET_TILE_VALUE \<and> wf_grid won_board \<and>
   getAvailableMoves won_board \<noteq> [] \<and> (0::nat) < 5 \<and>
   maximize 1 won_board 0 (- MAX_UTILITY) MAX_UTILITY = Inr (None, eval_value won_board) \<and>
   getMove 5 0 won_board = Inr UP \<and> getMove 5 1 won_board = Inr RIGHT \<and>
   map (\<lambda>i. getMove 5 (int i) won_board) [0..<2] = [Inr UP, Inr RIGHT]"
proof -
  have h: "getMaxTile won_board = TARGET_TILE_VALUE" "wf_grid won_board"
    "getAvailableMoves won_board \<noteq> []" "(0::nat) < 5"
    using won_board_terminal
    by (simp_all add: is_terminal_state_def won_board_wf won_board_moves)
  note t0 = terminal_board_random_move [OF h, of 0]
  note t1 = terminal_board_random_move [OF h, of 1]
  from t0 have a: "maximize 1 won_board 0 (- MAX_UTILITY) MAX_UTILITY
                     = Inr (None, eval_value won_board)" by (rule conjunct1)
  from t0 have b: "getMove 5 0 won_board = Inr UP" by (simp add: won_board_moves)
  from t1 have c: "getMove 5 1 won_board = Inr RIGHT" by (simp add: won_board_moves)
  have "[0..<2] = [0, Suc 0]" by (simp add: upt_rec)
  with b c have d: "map (\<lambda>i. getMove 5 (int i) won_board) [0..<2] = [Inr UP, Inr RIGHT]"
    by simp
  from a b c d h show ?thesis by blast
qed

section \<open>Pruning against plain minimax\<close>

lemma fold_max_ge_init: "a \<le> fold max xs (a::int)"
proof (induction xs arbitrary: a)
  case Nil show ?case by simp
next
  case (Cons x xs)
  have "a \<le> max x a" by simp
  also have "\<dots> \<le> fold max xs (max x a)" by (rule Cons.IH)
  finally show ?case by simp
qed

lemma fold_min_le_init: "fold min xs (a::int) \<le> a"
proof (induction xs arbitrary: a)
  case Nil show ?case by simp
next
  case (Cons x xs)
  have "fold min xs (min x a) \<le> min x a" by (rule Cons.IH)
  also have "\<dots> \<le> a" by simp
  finally show ?case by simp
qed

lemma fold_max_le: "\<forall>x \<in> set xs. x \<le> c \<Longrightarrow> a \<le> c \<Longrightarrow> fold max xs (a::int) \<le> c"
  by (induction xs arbitrary: a) simp_all

lemma maximize_loop_sound:
  assumes child: "\<And>m a' mv u. - MAX_UTILITY \<le> a' \<Longrightarrow> a' < b \<Longrightarrow>
            minimize n (move g m) (d + 1) a' b = Inr (mv, u) \<Longrightarrow> fail_soft a' b (cv m) u"
    and a0: "- MAX_UTILITY \<le> a0"
  shows "alpha = max a0 mu \<Longrightarrow> alpha < b \<Longrightarrow> vb \<le> mu \<Longrightarrow> (a0 < mu \<longrightarrow> vb = mu) \<Longrightarrow>
         maximize_loop n g d ms (mm, mu) alpha b = Inr (mv, r) \<Longrightarrow>
         fail_soft a0 b (fold max (map cv ms) vb) r"
proof (induction ms arbitrary: mm mu alpha vb)
  case Nil
  then show ?case by (auto simp: fail_soft_def)
next
  case (Cons m ms)
  from Cons.prems(5) obtain mv' u where
    u: "minimize n (move g m) (d + 1) alpha b = Inr (mv', u)"
    by (auto simp: maximize_loop_Cons split: sum.splits)
  from Cons.prems(1) a0 have "- MAX_UTILITY \<le> alpha" by simp
  from child [OF this Cons.prems(2) u] have fs: "fail_soft alpha b (cv m) u" .
  show ?case
  proof (cases "b \<le> u")
    case True
    with Cons.prems(5) u have r: "r = (if mu < u then u else mu)"
      by (auto simp: maximize_loop_Cons split: if_splits)
    from True fs have "u \<le> cv m" by (simp add: fail_soft_def)
    also have "\<dots> \<le> max (cv m) vb" by simp
    also have "\<dots> \<le> fold max (map cv ms) (max (cv m) vb)" by (rule fold_max_ge_init)
    finally have "u \<le> fold max (map cv (m # ms)) vb" by simp
    with True r Cons.prems(1,2) show ?thesis by (auto simp: fail_soft_def)
  next
    case False
    let ?mu' = "if mu < u then u else mu"
    let ?alpha' = "if alpha < u then u else alpha"
    from False Cons.prems(5) u have loop:
      "maximize_loop n g d ms (if mu < u then (Some m, u) else (mm, mu)) ?alpha' b = Inr (mv, r)"
      by (simp add: maximize_loop_Cons)
    have cvu: "cv m \<le> u" using fs False by (auto simp: fail_soft_def)
    have i1: "?alpha' = max a0 ?mu'" using Cons.prems(1) by auto
    have i2: "?alpha' < b" using False Cons.prems(2) by auto
    have i3: "max (cv m) vb \<le> ?mu'" using cvu Cons.prems(3) by auto
    have i4: "a0 < ?mu' \<longrightarrow> max (cv m) vb = ?mu'"
      using cvu Cons.prems(1,3,4) fs False by (auto simp: fail_soft_def)
    show ?thesis
    proof (cases "mu < u")
      case True
      with loop i1 i2 i3 i4 Cons.IH [of ?alpha' u "max (cv m) vb" "Some m"] show ?thesis
        by simp
    next
      case False
      with loop i1 i2 i3 i4 Cons.IH [of ?alpha' mu "max (cv m) vb" mm] show ?thesis
        by simp
    qed
  qed
qed


lemma minimize_loop_sound:
  assumes child: "\<And>c b' mv u. a < b' \<Longrightarrow> b' \<le> MAX_UTILITY \<Longrightarrow>
            maximize n (setCellValue g c 2) (d + 1) a b' = Inr (mv, u) \<Longrightarrow> fail_soft a b' (cv c) u"
    and b0: "b0 \<le> MAX_UTILITY"
  shows "beta = min b0 mu \<Longrightarrow> a < beta \<Longrightarrow> mu \<le> vb \<Longrightarrow> (mu < b0 \<longrightarrow> vb = mu) \<Longrightarrow>
         minimize_loop n g d ms (mm, mu) a beta = Inr (mv, r) \<Longrightarrow>
         fail_soft a b0 (fold min (map cv ms) vb) r"
proof (induction ms arbitrary: mm mu beta vb)
  case Nil
  then show ?case by (auto simp: fail_soft_def)
next
  case (Cons c cs)
  from Cons.prems(5) obtain mv' u where
    u: "maximize n (setCellValue g c 2) (d + 1) a beta = Inr (mv', u)"
    by (auto simp: minimize_loop_Cons split: sum.splits)
  from Cons.prems(1) b0 have "beta \<le> MAX_UTILITY" by simp
  from child [OF Cons.prems(2) this u] have fs: "fail_soft a beta (cv c) u" .
  show ?case
  proof (cases "u \<le> a")
    case True
    with Cons.prems(5) u have r: "r = (if u < mu then u else mu)"
      by (auto simp: minimize_loop_Cons split: if_splits)
    have "fold min (map cv cs) (min (cv c) vb) \<le> min (cv c) vb" by (rule fold_min_le_init)
    also have "\<dots> \<le> cv c" by simp
    also from True fs have "cv c \<le> u" by (simp add: fail_soft_def)
    finally have "fold min (map cv (c # cs)) vb \<le> u" by simp
    with True r Cons.prems(1,2) show ?thesis by (auto simp: fail_soft_def)
  next
    case False
    let ?mu' = "if u < mu then u else mu"
    let ?beta' = "if u < beta then u else beta"
    from False Cons.prems(5) u have loop:
      "minimize_loop n g d cs (if u < mu then (Some c, u) else (mm, mu)) a ?beta' = Inr (mv, r)"
      by (simp add: minimize_loop_Cons)
    have cvu: "u \<le> cv c" using fs False by (auto simp: fail_soft_def)
    have i1: "?beta' = min b0 ?mu'" using Cons.prems(1) by auto
    have i2: "a < ?beta'" using False Cons.prems(2) by auto
    have i3: "?mu' \<le> min (cv c) vb" using cvu Cons.prems(3) by auto
    have i4: "?mu' < b0 \<longrightarrow> min (cv c) vb = ?mu'"
      using cvu Cons.prems(1,3,4) fs False by (auto simp: fail_soft_def)
    show ?thesis
    proof (cases "u < mu")
      case True
      with loop i1 i2 i3 i4 Cons.IH [of ?beta' u "min (cv c) vb" "Some c"] show ?thesis
        by simp
    next
      case False
      with loop i1 i2 i3 i4 Cons.IH [of ?beta' mu "min (cv c) vb" mm] show ?thesis
        by simp
    qed
  qed
qed

lemma expected_utility_proba:
  "expected_utility (map (\<lambda>(tile, proba). (proba, f tile)) TILE_VALUE_PROBA) = f 2"
  by (simp add: expected_utility_def TILE_VALUE_PROBA_def)

lemma search_sound:
  "wf_grid g \<Longrightarrow> d \<le> MAX_DEPTH \<Longrightarrow> MAX_DEPTH - d < int n \<Longrightarrow>
   - MAX_UTILITY \<le> a \<Longrightarrow> a < b \<Longrightarrow> b \<le> MAX_UTILITY \<Longrightarrow>
   (\<forall>mv r. maximize n g d a b = Inr (mv, r) \<longrightarrow>
      fail_soft a b (minimax_max (nat (MAX_DEPTH - d)) g) r) \<and>
   (\<forall>mv r. minimize n g d a b = Inr (mv, r) \<longrightarrow>
      fail_soft a b (minimax_min (nat (MAX_DEPTH - d)) g) r)"
proof (induction n arbitrary: g d a b)
  case 0
  then show ?case by simp
next
  case (Suc n)
  note wf = Suc.prems(1)
  show ?case
  proof (cases "d = MAX_DEPTH")
    case True
    then show ?thesis by (auto simp: eval_wf [OF wf] fail_soft_def)
  next
    case False
    with Suc.prems have d: "d + 1 \<le> MAX_DEPTH" "MAX_DEPTH - (d + 1) < int n" by simp_all
    from False Suc.prems(2) obtain k where k: "nat (MAX_DEPTH - d) = Suc k" "nat (MAX_DEPTH - (d + 1)) = k"
      by (cases "nat (MAX_DEPTH - d)") (simp_all add: nat_eq_iff)
    show ?thesis
    proof (cases "is_terminal_state g")
      case True
      then show ?thesis by (auto simp: eval_wf [OF wf] fail_soft_def k)
    next
      case nt: False
      have "fail_soft a b (minimax_max (Suc k) g) r"
        if run: "maximize (Suc n) g d a b = Inr (mv, r)" for mv r
      proof -
        have child: "fail_soft a' b (minimax_min k (move g m)) u"
          if "- MAX_UTILITY \<le> a'" "a' < b" "minimize n (move g m) (d + 1) a' b = Inr (mv, u)"
          for m a' mv u
          using Suc.IH [OF wf_move d that(1,2) Suc.prems(6), of g m] that(3) k(2)
          by simp
        from run False nt have loop:
          "maximize_loop n g d (getAvailableMoves g) (None, - MAX_UTILITY) a b = Inr (mv, r)"
          by simp
        have "fail_soft a b
                (fold max (map (\<lambda>m. minimax_min k (move g m)) (getAvailableMoves g))
                   (- MAX_UTILITY)) r"
          by (rule maximize_loop_sound [where mu = "- MAX_UTILITY" and alpha = a and mm = None
                and mv = mv and n = n and d = d and g = g, OF child])
             (use Suc.prems loop in simp_all)
        then show ?thesis using nt by simp
      qed
      moreover have "fail_soft a b (minimax_min (Suc k) g) r"
        if run: "minimize (Suc n) g d a b = Inr (mv, r)" for mv r
      proof -
        have child: "fail_soft a b' (minimax_max k (setCellValue g c 2)) u"
          if "a < b'" "b' \<le> MAX_UTILITY" "maximize n (setCellValue g c 2) (d + 1) a b' = Inr (mv, u)"
          for c b' mv u
          using Suc.IH [OF wf_setCellValue [OF wf] d Suc.prems(4) that(1,2), of c 2]
            that(3) k(2)
          by simp
        from run False nt have loop:
          "minimize_loop n g d (getAvailableCells g) (None, MAX_UTILITY) a b = Inr (mv, r)"
          by simp
        have "fail_soft a b
                (fold min (map (\<lambda>c. minimax_max k (setCellValue g c 2)) (getAvailableCells g))
                   MAX_UTILITY) r"
          by (rule minimize_loop_sound [where mu = MAX_UTILITY and beta = b and mm = None
                and mv = mv and n = n and d = d and g = g, OF child])
             (use Suc.prems loop in simp_all)
        then show ?thesis using nt by (simp add: expected_utility_proba)
      qed
      ultimately show ?thesis by (simp add: k)
    qed
  qed
qed

lemma length_concat_wf:
  assumes "wf_grid g"
  shows "length (concat (map_g g)) = size_g g * size_g g"
proof -
  from assms have rows: "map length (map_g g) = map (\<lambda>row. size_g g) (map_g g)"
    by (simp add: wf_grid_def list_all_iff)
  have "length (concat (map_g g)) = sum_list (map length (map_g g))"
    by (rule length_concat)
  also have "\<dots> = sum_list (map (\<lambda>row. size_g g) (map_g g))"
    by (simp only: rows)
  also have "\<dots> = length (map_g g) * size_g g" by (simp add: sum_list_triv)
  finally show ?thesis using assms by (simp add: wf_grid_def)
qed

lemma emptyCount_le:
  assumes "wf_grid g"
  shows "emptyCount g \<le> int (size_g g * size_g g)"
proof -
  have "count_list (concat (map_g g)) 0 \<le> size_g g * size_g g"
    using count_le_length [of "concat (map_g g)" 0] by (simp add: length_concat_wf [OF assms])
  then show ?thesis by (simp only: emptyCount_def of_nat_le_iff)
qed

lemma eval_value_terminal_le:
  assumes wf: "wf_grid g" and t: "is_terminal_state g"
  shows "eval_value g \<le> 80 * int (size_g g * size_g g) + 10 * TARGET_TILE_VALUE"
proof -
  from eval_total [OF wf] obtain s m where
    e: "s \<le> 0" "m \<le> 0" "eval g = Inr (10 * s + 20 * m + 80 * emptyCount g + 10 * maxTile g)"
    by blast
  from t have "maxTile g = TARGET_TILE_VALUE"
    by (simp add: is_terminal_state_def getMaxTile_def maxTile_fold)
  with e emptyCount_le [OF wf] show ?thesis by (simp add: eval_value_def)
qed

lemma minimax_min_le:
  assumes "wf_grid g" and "80 * int (size_g g * size_g g) + 10 * TARGET_TILE_VALUE \<le> MAX_UTILITY"
  shows "minimax_min (Suc k) g \<le> MAX_UTILITY"
proof (cases "is_terminal_state g")
  case True
  with eval_value_terminal_le [OF assms(1) True] assms(2) show ?thesis by simp
next
  case False
  then show ?thesis by (simp add: fold_min_le_init)
qed

lemma maximize_loop_ge:
  "maximize_loop n g d ms (mm, mu) alpha beta = Inr (mv, r) \<Longrightarrow> mu \<le> r"
proof (induction ms arbitrary: mm mu alpha)
  case Nil
  then show ?case by simp
next
  case (Cons m ms)
  from Cons.prems obtain mv' u where
    u: "minimize n (move g m) (d + 1) alpha beta = Inr (mv', u)"
    by (auto simp: maximize_loop_Cons split: sum.splits)
  show ?case
  proof (cases "beta \<le> u")
    case True
    with Cons.prems u show ?thesis by (auto simp: maximize_loop_Cons split: if_splits)
  next
    case False
    with Cons.prems u have
      "maximize_loop n g d ms (if mu < u then (Some m, u) else (mm, mu))
         (if alpha < u then u else alpha) beta = Inr (mv, r)"
      by (simp add: maximize_loop_Cons)
    then show ?thesis
      using Cons.IH [of "Some m" u "if alpha < u then u else alpha"]
        Cons.IH [of mm mu "if alpha < u then u else alpha"]
      by (auto split: if_splits)
  qed
qed

text \<open>
  Claim C2. For every square board, the utility that \<^verbatim>\<open>__maximize\<close> returns at
  the root (depth 0, \<open>alpha = -MAX_UTILITY\<close>, \<open>beta = MAX_UTILITY\<close>) is the utility of
  unpruned minimax of depth 4 on that board. The board must be small enough for the
  utility of a board with the target tile to stay below \<open>MAX_UTILITY\<close>, which holds up
  to a side of 339 million cells.
\<close>

theorem pruning_preserves_minimax:
  assumes wf: "wf_grid g"
    and fits: "80 * int (size_g g * size_g g) + 10 * TARGET_TILE_VALUE \<le> MAX_UTILITY"
    and n: "5 \<le> n"
  shows "\<exists>mv. maximize n g 0 (- MAX_UTILITY) MAX_UTILITY = Inr (mv, minimax_max (nat MAX_DEPTH) g)"
proof -
  let ?v = "minimax_max (nat MAX_DEPTH) g"
  from n have fuel: "MAX_DEPTH - 0 < int n" by (simp add: MAX_DEPTH_def)
  from n obtain n' where n': "n = Suc n'" by (cases n) simp_all
  have d0: "(0::int) \<le> MAX_DEPTH" by (simp add: MAX_DEPTH_def)
  have k: "nat MAX_DEPTH = Suc 3" by (simp add: MAX_DEPTH_def)
  have win: "- MAX_UTILITY \<le> - MAX_UTILITY" "- MAX_UTILITY < MAX_UTILITY" "MAX_UTILITY \<le> MAX_UTILITY"
    by (simp_all add: MAX_UTILITY_def)
  from search_total [OF wf d0 fuel, of "- MAX_UTILITY" MAX_UTILITY] obtain mv r where
    run: "maximize n g 0 (- MAX_UTILITY) MAX_UTILITY = Inr (mv, r)" by auto
  from search_sound [OF wf d0 fuel win] run
  have fs: "fail_soft (- MAX_UTILITY) MAX_UTILITY ?v r" by simp
  have "r = ?v"
  proof (cases "is_terminal_state g")
    case True
    then have "?v = eval_value g" by (simp only: k minimax_max.simps if_True)
    with True run wf show ?thesis by (simp add: n' eval_wf)
  next
    case False
    with run have loop: "maximize_loop n' g 0 (getAvailableMoves g) (None, - MAX_UTILITY)
        (- MAX_UTILITY) MAX_UTILITY = Inr (mv, r)"
      by (simp add: n' MAX_DEPTH_def)
    from maximize_loop_ge [OF loop] have lo: "- MAX_UTILITY \<le> r" .
    from False have v: "?v = fold max (map (\<lambda>m. minimax_min 3 (move g m)) (getAvailableMoves g))
                            (- MAX_UTILITY)"
      by (simp only: k minimax_max.simps if_False)
    have vlo: "- MAX_UTILITY \<le> ?v" unfolding v by (rule fold_max_ge_init)
    have "minimax_min 3 (move g m) \<le> MAX_UTILITY" for m
      using minimax_min_le [OF wf_move, of g m 2] fits
      by (simp add: size_move numeral_3_eq_3)
    then have vhi: "?v \<le> MAX_UTILITY"
      unfolding v using win by (intro fold_max_le) auto
    from fs lo vlo vhi show ?thesis by (auto simp: fail_soft_def)
  qed
  with run show ?thesis by blast
qed

theorem pruning_preserves_minimax_witness:
  "wf_grid small_board \<and>
   80 * int (size_g small_board * size_g small_board) + 10 * TARGET_TILE_VALUE \<le> MAX_UTILITY \<and>
   (5::nat) \<le> 5 \<and>
   (\<exists>mv. maximize 5 small_board 0 (- MAX_UTILITY) MAX_UTILITY
           = Inr (mv, minimax_max (nat MAX_DEPTH) small_board))"
proof -
  have h: "wf_grid small_board"
    "80 * int (size_g small_board * size_g small_board) + 10 * TARGET_TILE_VALUE \<le> MAX_UTILITY"
    "(5::nat) \<le> 5"
    by (rule small_board_wf)
       (simp_all add: small_board_def TARGET_TILE_VALUE_def MAX_UTILITY_def)
  from pruning_preserves_minimax [OF h] h show ?thesis by blast
qed

section \<open>The store after a search\<close>

text \<open>The search on the store computes what the search on values computes, and its
  final store is the initial one with new objects appended.\<close>

declare maximize_loop_s.simps(2) [simp del] minimize_loop_s.simps(2) [simp del]

lemma maximize_loop_s_Cons:
  "maximize_loop_s n st a d (m # ms) (mm, mu) alpha beta =
     (case minimize_s n (st @ [move (st ! a) m]) (length st) (d + 1) alpha beta of
        (Inl e, st3) \<Rightarrow> (Inl e, st3)
      | (Inr (mv, u), st3) \<Rightarrow>
          if beta \<le> u then (Inr (if mu < u then (Some m, u) else (mm, mu)), st3)
          else maximize_loop_s n st3 a d ms (if mu < u then (Some m, u) else (mm, mu))
                 (if alpha < u then u else alpha) beta)"
  by (simp add: maximize_loop_s.simps(2) clone_s_def move_s_def split: prod.splits sum.splits)

lemma minimize_loop_s_Cons:
  "minimize_loop_s n st a d (m # ms) (mm, mu) alpha beta =
     (case maximize_s n (st @ [setCellValue (st ! a) m 2]) (length st) (d + 1) alpha beta of
        (Inl e, st2) \<Rightarrow> (Inl e, st2)
      | (Inr (mv, u), st2) \<Rightarrow>
          if u \<le> alpha then (Inr (if u < mu then (Some m, u) else (mm, mu)), st2)
          else minimize_loop_s n st2 a d ms (if u < mu then (Some m, u) else (mm, mu)) alpha
                 (if u < beta then u else beta))"
  by (simp add: minimize_loop_s.simps(2) clone_s_def setCellValue_s_def TILE_VALUE_PROBA_def
      split: prod.splits sum.splits)

lemma maximize_loop_s_frame:
  assumes calls: "\<And>st' a' alpha'. a' < length st' \<Longrightarrow>
      \<exists>zs. minimize_s n st' a' (d + 1) alpha' beta
             = (minimize n (st' ! a') (d + 1) alpha' beta, st' @ zs)"
  shows "a < length st \<Longrightarrow>
         \<exists>zs. maximize_loop_s n st a d ms (mm, mu) alpha beta
                = (maximize_loop n (st ! a) d ms (mm, mu) alpha beta, st @ zs)"
proof (induction ms arbitrary: st mm mu alpha)
  case Nil
  show ?case by simp
next
  case (Cons m ms)
  from calls [of "length st" "st @ [move (st ! a) m]" alpha] obtain zs where
    call0: "minimize_s n (st @ [move (st ! a) m]) (length st) (d + 1) alpha beta
             = (minimize n (move (st ! a) m) (d + 1) alpha beta, (st @ [move (st ! a) m]) @ zs)"
    by auto
  define st3 where "st3 = (st @ [move (st ! a) m]) @ zs"
  from call0 have call: "minimize_s n (st @ [move (st ! a) m]) (length st) (d + 1) alpha beta
             = (minimize n (move (st ! a) m) (d + 1) alpha beta, st3)"
    by (simp only: st3_def)
  from Cons.prems have a3: "a < length st3" "st3 ! a = st ! a"
    and ext: "st3 @ ws = st @ (move (st ! a) m # zs @ ws)" for ws
    by (simp_all add: st3_def nth_append)
  have ih: "\<exists>zs'. maximize_loop_s n st3 a d ms (mm', mu') alpha' beta
                   = (maximize_loop n (st ! a) d ms (mm', mu') alpha' beta, st @ zs')"
    for mm' mu' alpha'
    using Cons.IH [OF a3(1), of mm' mu' alpha'] unfolding a3(2) ext by blast
  have same: "\<exists>zs'. (x, st3) = (x, st @ zs')" for x :: "error + direction option \<times> int"
    using ext [of "[]"] by auto
  show ?case
  proof (cases "minimize n (move (st ! a) m) (d + 1) alpha beta")
    case (Inl e)
    with call same show ?thesis by (simp add: maximize_loop_s_Cons maximize_loop_Cons)
  next
    case (Inr res)
    obtain mv u where res: "res = (mv, u)" by (cases res)
    show ?thesis
    proof (cases "beta \<le> u")
      case True
      with call Inr res same show ?thesis
        by (simp add: maximize_loop_s_Cons maximize_loop_Cons)
    next
      case False
      with call Inr res ih [of "Some m" u] ih [of mm mu] show ?thesis
        by (simp add: maximize_loop_s_Cons maximize_loop_Cons)
    qed
  qed
qed

lemma minimize_loop_s_frame:
  assumes calls: "\<And>st' a' beta'. a' < length st' \<Longrightarrow>
      \<exists>zs. maximize_s n st' a' (d + 1) alpha beta'
             = (maximize n (st' ! a') (d + 1) alpha beta', st' @ zs)"
  shows "a < length st \<Longrightarrow>
         \<exists>zs. minimize_loop_s n st a d ms (mm, mu) alpha beta
                = (minimize_loop n (st ! a) d ms (mm, mu) alpha beta, st @ zs)"
proof (induction ms arbitrary: st mm mu beta)
  case Nil
  show ?case by simp
next
  case (Cons m ms)
  from calls [of "length st" "st @ [setCellValue (st ! a) m 2]" beta] obtain zs where
    call0: "maximize_s n (st @ [setCellValue (st ! a) m 2]) (length st) (d + 1) alpha beta
             = (maximize n (setCellValue (st ! a) m 2) (d + 1) alpha beta,
                (st @ [setCellValue (st ! a) m 2]) @ zs)"
    by auto
  define st2 where "st2 = (st @ [setCellValue (st ! a) m 2]) @ zs"
  from call0 have call: "maximize_s n (st @ [setCellValue (st ! a) m 2]) (length st) (d + 1) alpha beta
             = (maximize n (setCellValue (st ! a) m 2) (d + 1) alpha beta, st2)"
    by (simp only: st2_def)
  from Cons.prems have a2: "a < length st2" "st2 ! a = st ! a"
    and ext: "st2 @ ws = st @ (setCellValue (st ! a) m 2 # zs @ ws)" for ws
    by (simp_all add: st2_def nth_append)
  have ih: "\<exists>zs'. minimize_loop_s n st2 a d ms (mm', mu') alpha beta'
                   = (minimize_loop n (st ! a) d ms (mm', mu') alpha beta', st @ zs')"
    for mm' mu' beta'
    using Cons.IH [OF a2(1), of mm' mu' beta'] unfolding a2(2) ext by blast
  have same: "\<exists>zs'. (x, st2) = (x, st @ zs')" for x :: "error + pos option \<times> int"
    using ext [of "[]"] by auto
  show ?case
  proof (cases "maximize n (setCellValue (st ! a) m 2) (d + 1) alpha beta")
    case (Inl e)
    with call same show ?thesis by (simp add: minimize_loop_s_Cons minimize_loop_Cons)
  next
    case (Inr res)
    obtain mv u where res: "res = (mv, u)" by (cases res)
    show ?thesis
    proof (cases "u \<le> alpha")
      case True
      with call Inr res same show ?thesis
        by (simp add: minimize_loop_s_Cons minimize_loop_Cons)
    next
      case False
      with call Inr res ih [of "Some m" u] ih [of mm mu] show ?thesis
        by (simp add: minimize_loop_s_Cons minimize_loop_Cons)
    qed
  qed
qed

lemma search_s_frame:
  "a < length st \<Longrightarrow>
   (\<exists>zs. maximize_s n st a d alpha beta = (maximize n (st ! a) d alpha beta, st @ zs)) \<and>
   (\<exists>zs. minimize_s n st a d alpha beta = (minimize n (st ! a) d alpha beta, st @ zs))"
proof (induction n arbitrary: st a d alpha beta)
  case 0
  show ?case by simp
next
  case (Suc n)
  show ?case
  proof (cases "d = MAX_DEPTH \<or> is_terminal_state (st ! a)")
    case True
    then show ?thesis by (cases "eval (st ! a)") auto
  next
    case False
    have mn: "\<exists>zs. minimize_s n st' a' (d + 1) alpha' beta
                  = (minimize n (st' ! a') (d + 1) alpha' beta, st' @ zs)"
      if "a' < length st'" for st' a' alpha'
      using Suc.IH [OF that] by blast
    have mx: "\<exists>zs. maximize_s n st' a' (d + 1) alpha beta'
                  = (maximize n (st' ! a') (d + 1) alpha beta', st' @ zs)"
      if "a' < length st'" for st' a' beta'
      using Suc.IH [OF that] by blast
    from False maximize_loop_s_frame [of n d beta a st, OF mn Suc.prems]
      minimize_loop_s_frame [of n d alpha a st, OF mx Suc.prems]
    show ?thesis by simp
  qed
qed

lemma getMove_s_frame:
  assumes "grid < length st"
  shows "\<exists>zs. getMove_s n rnd st grid = (getMove n rnd (st ! grid), st @ zs)"
proof -
  from search_s_frame [OF assms, of n 0 "- MAX_UTILITY" MAX_UTILITY] obtain zs where
    run: "maximize_s n st grid 0 (- MAX_UTILITY) MAX_UTILITY
            = (maximize n (st ! grid) 0 (- MAX_UTILITY) MAX_UTILITY, st @ zs)"
    by blast
  from assms have same: "(st @ zs) ! grid = st ! grid" by (simp add: nth_append)
  have "getMove_s n rnd st grid = (getMove n rnd (st ! grid), st @ zs)"
    unfolding getMove_s_def getMove_def run
    by (simp add: same Let_def split: sum.splits option.splits prod.splits)
  then show ?thesis by blast
qed

text \<open>
  Claim C8. For every store and every allocated board, a call of \<^verbatim>\<open>getMove\<close>, of
  \<^verbatim>\<open>__maximize\<close> or of \<^verbatim>\<open>__minimize\<close> (at any depth and with any bounds) leaves
  every object that existed before the call as it was, the argument board among them:
  all writes go to clones the call allocated. The result is the one computed on the
  board as a value.
\<close>

theorem caller_board_unchanged:
  assumes "grid < length st"
  shows "take (length st) (snd (getMove_s n rnd st grid)) = st \<and>
         snd (getMove_s n rnd st grid) ! grid = st ! grid \<and>
         fst (getMove_s n rnd st grid) = getMove n rnd (st ! grid) \<and>
         take (length st) (snd (maximize_s n st grid d alpha beta)) = st \<and>
         snd (maximize_s n st grid d alpha beta) ! grid = st ! grid \<and>
         fst (maximize_s n st grid d alpha beta) = maximize n (st ! grid) d alpha beta \<and>
         take (length st) (snd (minimize_s n st grid d alpha beta)) = st \<and>
         snd (minimize_s n st grid d alpha beta) ! grid = st ! grid \<and>
         fst (minimize_s n st grid d alpha beta) = minimize n (st ! grid) d alpha beta"
proof -
  from getMove_s_frame [OF assms, of n rnd] obtain zs1 where
    g: "getMove_s n rnd st grid = (getMove n rnd (st ! grid), st @ zs1)" by blast
  from search_s_frame [OF assms, of n d alpha beta] obtain zs2 zs3 where
    m: "maximize_s n st grid d alpha beta = (maximize n (st ! grid) d alpha beta, st @ zs2)"
      "minimize_s n st grid d alpha beta = (minimize n (st ! grid) d alpha beta, st @ zs3)"
    by blast
  from assms show ?thesis by (simp add: g m nth_append)
qed

theorem caller_board_unchanged_witness:
  "(0::nat) < length [small_board] \<and>
   take (length [small_board]) (snd (getMove_s 5 0 [small_board] 0)) = [small_board] \<and>
   snd (getMove_s 5 0 [small_board] 0) ! 0 = small_board \<and>
   fst (getMove_s 5 0 [small_board] 0) = getMove 5 0 small_board"
  using caller_board_unchanged [of 0 "[small_board]" 5 0 0 0 0] by simp

end
